theory Spec2Isabelle
  imports Main "HOL-Library.Sublist"
begin

section \<open>Python strings\<close>

text \<open>
  The script \<^verbatim>\<open>scripts/replace_console.py\<close> works on Python \<^verbatim>\<open>str\<close> values. A text is
  modelled as a \<^typ>\<open>string\<close>, one \<^typ>\<open>char\<close> per code point, which covers the code points
  below 256.
\<close>

abbreviation newline :: char where
  "newline \<equiv> CHR 0x0A"

abbreviation squote :: char where
  "squote \<equiv> CHR 0x27"

abbreviation dquote :: char where
  "dquote \<equiv> CHR 0x22"

text \<open>\<^verbatim>\<open>str.isspace\<close> on one character, which is also the class \<^verbatim>\<open>\s\<close> of \<^verbatim>\<open>re\<close>.\<close>

definition is_space :: "char \<Rightarrow> bool" where
  "is_space c \<longleftrightarrow>
     c \<in> {CHR 0x09, CHR 0x0A, CHR 0x0B, CHR 0x0C, CHR 0x0D, CHR 0x1C, CHR 0x1D, CHR 0x1E,
          CHR 0x1F, CHR 0x20, CHR 0x85, CHR 0xA0}"

text \<open>\<^verbatim>\<open>needle in hay\<close>.\<close>

fun contains :: "string \<Rightarrow> string \<Rightarrow> bool" where
  "contains needle [] \<longleftrightarrow> needle = []"
| "contains needle (c # cs) \<longleftrightarrow> prefix needle (c # cs) \<or> contains needle cs"

text \<open>\<^verbatim>\<open>s.strip()\<close>.\<close>

definition strip :: "string \<Rightarrow> string" where
  "strip s = rev (dropWhile is_space (rev (dropWhile is_space s)))"

text \<open>\<^verbatim>\<open>s.split(sep)\<close> for a separator of one character: never the empty list.\<close>

fun split :: "char \<Rightarrow> string \<Rightarrow> string list" where
  "split sep [] = [[]]"
| "split sep (c # cs) =
     (if c = sep then [] # split sep cs
      else (case split sep cs of [] \<Rightarrow> [[c]] | l # ls \<Rightarrow> (c # l) # ls))"

text \<open>\<^verbatim>\<open>s * n\<close>: the empty string when \<open>n\<close> is not positive.\<close>

definition str_mul :: "string \<Rightarrow> int \<Rightarrow> string" where
  "str_mul s n = concat (replicate (nat n) s)"

section \<open>The fragment of \<^verbatim>\<open>re\<close> that the script uses\<close>

text \<open>
  The patterns of the script are sequences of literals, greedy repetitions of a character
  class, one capturing group around such a repetition, and the anchors \<^verbatim>\<open>^\<close> and \<^verbatim>\<open>$\<close> under
  \<^verbatim>\<open>re.MULTILINE\<close>. The matcher is the backtracking one of \<^verbatim>\<open>re\<close>: a greedy repetition
  tries the longest run first and gives characters back one at a time.
\<close>

datatype cclass =
    AnyChar          \<comment> \<open>\<^verbatim>\<open>.\<close>: every character but the newline\<close>
  | NotChar char     \<comment> \<open>\<^verbatim>\<open>[^c]\<close>\<close>
  | Whitespace       \<comment> \<open>\<^verbatim>\<open>\s\<close>\<close>

fun in_class :: "cclass \<Rightarrow> char \<Rightarrow> bool" where
  "in_class AnyChar c \<longleftrightarrow> c \<noteq> newline"
| "in_class (NotChar q) c \<longleftrightarrow> c \<noteq> q"
| "in_class Whitespace c \<longleftrightarrow> is_space c"

datatype atom =
    Lit string       \<comment> \<open>a run of literal characters\<close>
  | Plus cclass      \<comment> \<open>\<^verbatim>\<open>X+\<close>\<close>
  | Star cclass      \<comment> \<open>\<^verbatim>\<open>X*\<close>\<close>
  | Capture cclass   \<comment> \<open>\<^verbatim>\<open>(X+)\<close>, group 1\<close>
  | Bol              \<comment> \<open>\<^verbatim>\<open>^\<close> under MULTILINE\<close>
  | Eol              \<comment> \<open>\<^verbatim>\<open>$\<close> under MULTILINE\<close>

type_synonym regex = "atom list"

fun first_some :: "('a \<Rightarrow> 'b option) \<Rightarrow> 'a list \<Rightarrow> 'b option" where
  "first_some f [] = None"
| "first_some f (k # ks) = (case f k of Some r \<Rightarrow> Some r | None \<Rightarrow> first_some f ks)"

lemma first_some_cong [fundef_cong]:
  "ks = ks' \<Longrightarrow> (\<And>k. k \<in> set ks' \<Longrightarrow> f k = g k) \<Longrightarrow> first_some f ks = first_some g ks'"
  by (induction ks arbitrary: ks') (auto split: option.splits)

text \<open>The character before the current position, after \<open>consumed\<close> has been read.\<close>

definition last_char :: "char option \<Rightarrow> string \<Rightarrow> char option" where
  "last_char prev consumed = (if consumed = [] then prev else Some (last consumed))"

text \<open>The length of the longest run of characters of a class at the head of a text.\<close>

definition run :: "cclass \<Rightarrow> string \<Rightarrow> nat" where
  "run cl s = length (takeWhile (in_class cl) s)"

text \<open>
  \<open>match_here p prev s g\<close> matches the pattern \<open>p\<close> at the head of \<open>s\<close>, where \<open>prev\<close> is
  the character before \<open>s\<close> in the whole text (\<open>None\<close> at its start) and \<open>g\<close> the group
  captured so far. The result is the first match in the order of the backtracking search:
  the captured group and the text left after the match.
\<close>

fun match_here :: "regex \<Rightarrow> char option \<Rightarrow> string \<Rightarrow> string option \<Rightarrow> (string option \<times> string) option" where
  "match_here [] prev s g = Some (g, s)"
| "match_here (Lit l # p) prev s g =
     (if prefix l s then match_here p (last_char prev l) (drop (length l) s) g else None)"
| "match_here (Plus cl # p) prev s g =
     first_some (\<lambda>k. match_here p (last_char prev (take k s)) (drop k s) g)
       (rev [1 ..< Suc (run cl s)])"
| "match_here (Star cl # p) prev s g =
     first_some (\<lambda>k. match_here p (last_char prev (take k s)) (drop k s) g)
       (rev [0 ..< Suc (run cl s)])"
| "match_here (Capture cl # p) prev s g =
     first_some (\<lambda>k. match_here p (last_char prev (take k s)) (drop k s) (Some (take k s)))
       (rev [1 ..< Suc (run cl s)])"
| "match_here (Bol # p) prev s g =
     (if prev = None \<or> prev = Some newline then match_here p prev s g else None)"
| "match_here (Eol # p) prev s g =
     (if s = [] \<or> hd s = newline then match_here p prev s g else None)"

text \<open>
  \<^verbatim>\<open>re.finditer\<close>: the spans \<open>(start, end)\<close> of the matches found by scanning from left to
  right, the search going on at the end of each match. After an empty match the scan moves
  one character on.
\<close>

function finditer_from :: "regex \<Rightarrow> char option \<Rightarrow> nat \<Rightarrow> string \<Rightarrow> (nat \<times> nat) list" where
  "finditer_from p prev i s =
     (case match_here p prev s None of
        None \<Rightarrow> (case s of [] \<Rightarrow> [] | c # cs \<Rightarrow> finditer_from p (Some c) (Suc i) cs)
      | Some (g, rest) \<Rightarrow>
          (let k = length s - length rest in
           if k = 0
           then (i, i) # (case s of [] \<Rightarrow> [] | c # cs \<Rightarrow> finditer_from p (Some c) (Suc i) cs)
           else (i, i + k) # finditer_from p (last_char prev (take k s)) (i + k) rest))"
  by pat_completeness auto
termination
  by (relation "measure (\<lambda>(p, prev, i, s). length s)") auto

definition finditer :: "regex \<Rightarrow> string \<Rightarrow> (nat \<times> nat) list" where
  "finditer p s = finditer_from p None 0 s"

text \<open>A replacement template: literal text and the reference \<^verbatim>\<open>\1\<close> to group 1.\<close>

datatype titem = TLit string | TGroup

fun expand :: "titem list \<Rightarrow> string option \<Rightarrow> string" where
  "expand [] g = []"
| "expand (TLit l # t) g = l @ expand t g"
| "expand (TGroup # t) g = (case g of None \<Rightarrow> [] | Some m \<Rightarrow> m) @ expand t g"

text \<open>
  \<^verbatim>\<open>re.subn\<close>: every match found by the same scan is replaced by the expanded template,
  the text between the matches is copied, and the number of matches is returned with the
  new text.
\<close>

function subn_from :: "regex \<Rightarrow> titem list \<Rightarrow> char option \<Rightarrow> string \<Rightarrow> string \<times> nat" where
  "subn_from p t prev s =
     (case match_here p prev s None of
        None \<Rightarrow>
          (case s of [] \<Rightarrow> ([], 0)
           | c # cs \<Rightarrow> (let (out, n) = subn_from p t (Some c) cs in (c # out, n)))
      | Some (g, rest) \<Rightarrow>
          (let k = length s - length rest in
           if k = 0
           then (case s of [] \<Rightarrow> (expand t g, 1)
                 | c # cs \<Rightarrow>
                     (let (out, n) = subn_from p t (Some c) cs in (expand t g @ c # out, Suc n)))
           else (let (out, n) = subn_from p t (last_char prev (take k s)) rest
                 in (expand t g @ out, Suc n))))"
  by pat_completeness auto
termination
  by (relation "measure (\<lambda>(p, t, prev, s). length s)") auto

definition subn :: "regex \<Rightarrow> titem list \<Rightarrow> string \<Rightarrow> string \<times> nat" where
  "subn p t s = subn_from p t None s"

section \<open>The import inserter\<close>

text \<open>\<^verbatim>\<open>r"^const .+ = require\(.+\);$"\<close>\<close>

definition require_pattern :: regex where
  \<open>require_pattern =
     [Bol, Lit ''const '', Plus AnyChar, Lit '' = require('', Plus AnyChar, Lit '');'', Eol]\<close>

definition logger_path :: "string \<Rightarrow> string" where
  \<open>logger_path filepath =
     (let depth = int (count_list filepath CHR ''/'') - 1
      in str_mul ''../'' depth @ ''utils/logger'')\<close>

definition add_logger_import :: "string \<Rightarrow> string \<Rightarrow> string \<times> bool" where
  \<open>add_logger_import content filepath =
     (if contains ''require('../../utils/logger')'' content
         \<or> contains ''require("../../utils/logger")'' content
      then (content, False)
      else
        (let matches = finditer require_pattern content in
         if matches \<noteq> [] then
           (let last_match = last matches;
                insert_pos = snd last_match
            in (take insert_pos content
                  @ (''\<newline>const logger = require('' @ [squote] @ logger_path filepath @ ''');'')
                  @ drop insert_pos content, True))
         else (content, False)))\<close>

section \<open>The rewriter\<close>

text \<open>
  The eight rules, in the order of the source. Each is a pattern and its template:
  \<^verbatim>\<open>console\.error\('([^']+)',\s*error\);\<close> and so on.
\<close>

definition error_obj_sq :: "regex \<times> titem list" where
  \<open>error_obj_sq =
     ([Lit (''console.error('' @ [squote]), Capture (NotChar squote), Lit ''','',
       Star Whitespace, Lit ''error);''],
      [TLit (''logger.error('' @ [squote]), TGroup,
       TLit ''', { error: error.message, stack: error.stack });''])\<close>

definition error_obj_dq :: "regex \<times> titem list" where
  \<open>error_obj_dq =
     ([Lit ''console.error("'', Capture (NotChar dquote), Lit ''",'',
       Star Whitespace, Lit ''error);''],
      [TLit ''logger.error("'', TGroup,
       TLit ''", { error: error.message, stack: error.stack });''])\<close>

definition error_msg_sq :: "regex \<times> titem list" where
  \<open>error_msg_sq =
     ([Lit (''console.error('' @ [squote]), Capture (NotChar squote), Lit ''');''],
      [TLit (''logger.error('' @ [squote]), TGroup, TLit ''');''])\<close>

definition error_msg_dq :: "regex \<times> titem list" where
  \<open>error_msg_dq =
     ([Lit ''console.error("'', Capture (NotChar dquote), Lit ''");''],
      [TLit ''logger.error("'', TGroup, TLit ''");''])\<close>

definition log_sq :: "regex \<times> titem list" where
  \<open>log_sq =
     ([Lit (''console.log('' @ [squote]), Capture (NotChar squote), Lit ''');''],
      [TLit (''logger.info('' @ [squote]), TGroup, TLit ''');''])\<close>

definition log_dq :: "regex \<times> titem list" where
  \<open>log_dq =
     ([Lit ''console.log("'', Capture (NotChar dquote), Lit ''");''],
      [TLit ''logger.info("'', TGroup, TLit ''");''])\<close>

definition warn_sq :: "regex \<times> titem list" where
  \<open>warn_sq =
     ([Lit (''console.warn('' @ [squote]), Capture (NotChar squote), Lit ''');''],
      [TLit (''logger.warn('' @ [squote]), TGroup, TLit ''');''])\<close>

definition warn_dq :: "regex \<times> titem list" where
  \<open>warn_dq =
     ([Lit ''console.warn("'', Capture (NotChar dquote), Lit ''");''],
      [TLit ''logger.warn("'', TGroup, TLit ''");''])\<close>

text \<open>One step of the source: \<^verbatim>\<open>re.subn\<close>, the count added, the content replaced.\<close>

definition apply_rule :: "regex \<times> titem list \<Rightarrow> string \<times> nat \<Rightarrow> string \<times> nat" where
  "apply_rule rule st =
     (let (content, replacements) = st;
          (new_content, count) = subn (fst rule) (snd rule) content
      in (new_content, replacements + count))"

definition replace_console_statements :: "string \<Rightarrow> string \<times> nat" where
  "replace_console_statements content =
     (let st = (content, 0);
          st = apply_rule error_obj_sq st;
          st = apply_rule error_obj_dq st;
          st = apply_rule error_msg_sq st;
          st = apply_rule error_msg_dq st;
          st = apply_rule log_sq st;
          st = apply_rule log_dq st;
          st = apply_rule warn_sq st;
          st = apply_rule warn_dq st
      in st)"

section \<open>The external commands and the file system\<close>

text \<open>
  The script calls \<^verbatim>\<open>find\<close> and \<^verbatim>\<open>grep\<close> through \<^verbatim>\<open>subprocess.run\<close> and reads and
  writes files. A call of \<^verbatim>\<open>subprocess.run\<close> either raises or completes with a return code
  and the text of its standard output.
\<close>

datatype proc_outcome = Raised | Completed int string

datatype error =
    SubprocessRaised        \<comment> \<open>\<^verbatim>\<open>subprocess.run\<close> raised in \<^verbatim>\<open>find_files_with_console\<close>\<close>
  | CalledProcessError      \<comment> \<open>\<^verbatim>\<open>check=True\<close> and a return code other than 0\<close>
  | ReadFailed              \<comment> \<open>\<^verbatim>\<open>open(filepath, "r")\<close> or \<^verbatim>\<open>read\<close> raised\<close>
  | WriteFailed             \<comment> \<open>\<^verbatim>\<open>open(filepath, "w")\<close> or \<^verbatim>\<open>write\<close> raised\<close>

text \<open>
  The environment of a run over a world \<open>'w\<close>: what the two commands return in a world,
  and what reading and writing a file do to it (\<open>None\<close> when the call raises).
\<close>

record 'w env =
  run_find :: "'w \<Rightarrow> proc_outcome"
  run_grep :: "'w \<Rightarrow> string \<Rightarrow> proc_outcome"
  read_text :: "'w \<Rightarrow> string \<Rightarrow> string option"
  write_text :: "'w \<Rightarrow> string \<Rightarrow> string \<Rightarrow> 'w option"

subsection \<open>\<^verbatim>\<open>int(s)\<close> on a string\<close>

definition is_digit :: "char \<Rightarrow> bool" where
  "is_digit c \<longleftrightarrow> c \<in> set ''0123456789''"

definition digit_val :: "char \<Rightarrow> nat" where
  "digit_val c = of_char c - 48"

text \<open>The digits after a first digit: single underscores may separate digits.\<close>

fun parse_digits :: "nat \<Rightarrow> string \<Rightarrow> nat option" where
  "parse_digits acc [] = Some acc"
| "parse_digits acc [c] = (if is_digit c then Some (acc * 10 + digit_val c) else None)"
| "parse_digits acc (c # d # ds) =
     (if is_digit c then parse_digits (acc * 10 + digit_val c) (d # ds)
      else if c = CHR ''_'' \<and> is_digit d then parse_digits (acc * 10 + digit_val d) ds
      else None)"

definition parse_nat :: "string \<Rightarrow> nat option" where
  "parse_nat s =
     (case s of [] \<Rightarrow> None
      | c # cs \<Rightarrow> if is_digit c then parse_digits (digit_val c) cs else None)"

text \<open>
  \<open>None\<close> stands for the \<^verbatim>\<open>ValueError\<close> of \<^verbatim>\<open>int\<close>. The limit of \<^verbatim>\<open>int\<close> on the number
  of digits is not modelled.
\<close>

definition py_int :: "string \<Rightarrow> int option" where
  "py_int s =
     (case strip s of
        [] \<Rightarrow> None
      | c # cs \<Rightarrow>
          if c = CHR ''-'' then map_option (\<lambda>n. - int n) (parse_nat cs)
          else if c = CHR ''+'' then map_option int (parse_nat cs)
          else map_option int (parse_nat (c # cs)))"

section \<open>The locator\<close>

text \<open>
  \<open>grep\<close> is the call \<^verbatim>\<open>subprocess.run(["grep", "-c", ..., filepath], ...)\<close> in the
  current world. The bare \<^verbatim>\<open>except\<close> turns every exception, also the \<^verbatim>\<open>ValueError\<close> of
  \<^verbatim>\<open>int\<close>, into 0.
\<close>

definition count_console_statements :: "(string \<Rightarrow> proc_outcome) \<Rightarrow> string \<Rightarrow> int" where
  "count_console_statements grep filepath =
     (case grep filepath of
        Raised \<Rightarrow> 0
      | Completed returncode out \<Rightarrow>
          if returncode = 0
          then (case py_int (strip out) of None \<Rightarrow> 0 | Some n \<Rightarrow> n)
          else 0)"

definition find_files_with_console :: "'w env \<Rightarrow> 'w \<Rightarrow> error + string list" where
  "find_files_with_console e w =
     (case run_find e w of
        Raised \<Rightarrow> Inl SubprocessRaised
      | Completed returncode out \<Rightarrow>
          if returncode \<noteq> 0 then Inl CalledProcessError
          else Inr (filter
                 (\<lambda>filepath. filepath \<noteq> [] \<and> count_console_statements (run_grep e w) filepath > 0)
                 (split newline (strip out))))"

section \<open>The run\<close>

text \<open>What \<^verbatim>\<open>main\<close> prints, one event for each \<^verbatim>\<open>print\<close>.\<close>

datatype event =
    Finding
  | NoneFound
  | Found nat                   \<comment> \<open>the number of files\<close>
  | Processing nat nat string   \<comment> \<open>index, number of files, path\<close>
  | AddedImport
  | Replaced nat int            \<comment> \<open>replacements of the rewriter, count after writing\<close>
  | ManualReview int
  | Complete nat nat int        \<comment> \<open>files processed, logger imports added, total replacements\<close>
  | Remaining nat int           \<comment> \<open>files and statements of the final count\<close>
  | AllReplaced

record 'w run_state =
  world :: 'w
  total_replacements :: int
  files_with_logger_added :: nat
  printed :: "event list"

text \<open>The body of the loop of \<^verbatim>\<open>main\<close> for the file number \<open>i\<close> of \<open>n\<close>.\<close>

definition process_file :: "'w env \<Rightarrow> nat \<Rightarrow> nat \<Rightarrow> string \<Rightarrow> 'w run_state \<Rightarrow> error + 'w run_state" where
  "process_file e n i filepath st =
     (let out = printed st @ [Processing i n filepath] in
      case read_text e (world st) filepath of
        None \<Rightarrow> Inl ReadFailed
      | Some content \<Rightarrow>
          (let before_count = count_console_statements (run_grep e (world st)) filepath;
               (content, logger_added) = add_logger_import content filepath;
               added = (if logger_added then files_with_logger_added st + 1
                        else files_with_logger_added st);
               out = (if logger_added then out @ [AddedImport] else out);
               (content, replacements) = replace_console_statements content
           in case write_text e (world st) filepath content of
                None \<Rightarrow> Inl WriteFailed
              | Some w' \<Rightarrow>
                  (let after_count = count_console_statements (run_grep e w') filepath;
                       total = total_replacements st + (before_count - after_count);
                       out = (if replacements > 0 then out @ [Replaced replacements after_count]
                              else out);
                       out = (if after_count > 0 then out @ [ManualReview after_count] else out)
                   in Inr \<lparr>world = w', total_replacements = total,
                           files_with_logger_added = added, printed = out\<rparr>)))"

fun process_files :: "'w env \<Rightarrow> nat \<Rightarrow> nat \<Rightarrow> string list \<Rightarrow> 'w run_state \<Rightarrow> error + 'w run_state" where
  "process_files e n i [] st = Inr st"
| "process_files e n i (filepath # files) st =
     (case process_file e n i filepath st of
        Inl err \<Rightarrow> Inl err
      | Inr st' \<Rightarrow> process_files e n (Suc i) files st')"

definition main :: "'w env \<Rightarrow> 'w \<Rightarrow> error + event list \<times> 'w" where
  "main e w =
     (case find_files_with_console e w of
        Inl err \<Rightarrow> Inl err
      | Inr files \<Rightarrow>
          if files = [] then Inr ([Finding, NoneFound], w)
          else
            (case process_files e (length files) 1 files
                    \<lparr>world = w, total_replacements = 0, files_with_logger_added = 0,
                     printed = [Finding, Found (length files)]\<rparr> of
               Inl err \<Rightarrow> Inl err
             | Inr st \<Rightarrow>
                 (let out = printed st @
                        [Complete (length files) (files_with_logger_added st) (total_replacements st)]
                  in case find_files_with_console e (world st) of
                       Inl err \<Rightarrow> Inl err
                     | Inr remaining_files \<Rightarrow>
                         if remaining_files \<noteq> [] then
                           (let total_remaining =
                                  sum_list (map (count_console_statements (run_grep e (world st)))
                                              remaining_files)
                            in Inr (out @ [Remaining (length remaining_files) total_remaining],
                                    world st))
                         else Inr (out @ [AllReplaced], world st))))"

section \<open>A file system with \<^verbatim>\<open>find\<close> and \<^verbatim>\<open>grep\<close>\<close>

text \<open>
  A concrete environment for the end-to-end scenarios. The world is the list of the regular
  files in the order in which \<^verbatim>\<open>find\<close> enumerates them, each with its text; the directory
  \<^verbatim>\<open>src\<close> exists.
\<close>

type_synonym files = "(string \<times> string) list"

text \<open>
  \<^verbatim>\<open>find src -name "*.js" -type f\<close>: one line for each file under \<^verbatim>\<open>src\<close> whose name ends
  in \<^verbatim>\<open>.js\<close>.
\<close>

definition posix_find :: "files \<Rightarrow> proc_outcome" where
  "posix_find fs =
     Completed 0
       (concat (map (\<lambda>path. path @ [newline])
          (filter (\<lambda>path. prefix ''src/'' path \<and> suffix ''.js'' path) (map fst fs))))"

text \<open>A line selected by the pattern \<^verbatim>\<open>console\.\(log\|error\|warn\)\<close>.\<close>

definition console_line :: "string \<Rightarrow> bool" where
  "console_line l \<longleftrightarrow>
     contains ''console.log'' l \<or> contains ''console.error'' l \<or> contains ''console.warn'' l"

function show_nat :: "nat \<Rightarrow> string" where
  "show_nat n =
     (if n < 10 then [''0123456789'' ! n]
      else show_nat (n div 10) @ [''0123456789'' ! (n mod 10)])"
  by pat_completeness auto
termination
  by (relation "measure id") auto

text \<open>
  \<^verbatim>\<open>grep -c\<close> prints the number of selected lines and exits with 0 when there is one, with
  1 when there is none, and with 2 and no output when the file cannot be read.
\<close>

definition posix_grep :: "files \<Rightarrow> string \<Rightarrow> proc_outcome" where
  "posix_grep fs filepath =
     (case map_of fs filepath of
        None \<Rightarrow> Completed 2 []
      | Some text \<Rightarrow>
          (let n = length (filter console_line (split newline text))
           in Completed (if n > 0 then 0 else 1) (show_nat n @ [newline])))"

text \<open>Reading in text mode turns \<^verbatim>\<open>\r\n\<close> and \<^verbatim>\<open>\r\<close> into \<^verbatim>\<open>\n\<close>.\<close>

fun universal_newlines :: "string \<Rightarrow> string" where
  "universal_newlines [] = []"
| "universal_newlines [c] = (if c = CHR 0x0D then [newline] else [c])"
| "universal_newlines (c # d # ds) =
     (if c = CHR 0x0D \<and> d = newline then newline # universal_newlines ds
      else if c = CHR 0x0D then newline # universal_newlines (d # ds)
      else c # universal_newlines (d # ds))"

definition posix_read :: "files \<Rightarrow> string \<Rightarrow> string option" where
  "posix_read fs filepath = map_option universal_newlines (map_of fs filepath)"

fun store :: "string \<Rightarrow> string \<Rightarrow> files \<Rightarrow> files" where
  "store filepath text [] = [(filepath, text)]"
| "store filepath text ((p, t) # fs) =
     (if p = filepath then (p, text) # fs else (p, t) # store filepath text fs)"

definition posix_write :: "files \<Rightarrow> string \<Rightarrow> string \<Rightarrow> files option" where
  "posix_write fs filepath text = Some (store filepath text fs)"

definition posix :: "files env" where
  "posix = \<lparr>run_find = posix_find, run_grep = posix_grep,
            read_text = posix_read, write_text = posix_write\<rparr>"

section \<open>Shapes of the texts the patterns match\<close>

text \<open>
  The texts a pattern matches, said without the matcher. A line of the shape
  \<^verbatim>\<open>const <name> = require(<expr>);\<close>:
\<close>

definition require_line :: "string \<Rightarrow> bool" where
  \<open>require_line l \<longleftrightarrow>
     newline \<notin> set l \<and>
     (\<exists>a b. a \<noteq> [] \<and> b \<noteq> [] \<and> l = ''const '' @ a @ '' = require('' @ b @ '');'')\<close>

text \<open>
  \<open>l\<close> is a whole line of the text \<open>pre @ l @ post\<close>, where \<open>prev\<close> is the character
  before the text (\<open>None\<close> at the start of the file).
\<close>

definition is_line :: "char option \<Rightarrow> string \<Rightarrow> string \<Rightarrow> string \<Rightarrow> bool" where
  "is_line prev pre l post \<longleftrightarrow>
     newline \<notin> set l
     \<and> (if pre = [] then prev = None \<or> prev = Some newline else last pre = newline)
     \<and> (post = [] \<or> hd post = newline)"

abbreviation line_head :: "string \<Rightarrow> string" where
  "line_head s \<equiv> takeWhile (\<lambda>c. c \<noteq> newline) s"

abbreviation line_rest :: "string \<Rightarrow> string" where
  "line_rest s \<equiv> dropWhile (\<lambda>c. c \<noteq> newline) s"

definition at_require :: "char option \<Rightarrow> string \<Rightarrow> bool" where
  "at_require prev s \<longleftrightarrow> (prev = None \<or> prev = Some newline) \<and> require_line (line_head s)"

text \<open>
  A message between quotes \<open>q\<close>, and the two shapes of call that the rules rewrite:
  \<^verbatim>\<open>name('message');\<close> and \<^verbatim>\<open>name('message', error);\<close> with any white space after the comma.
\<close>

definition message :: "char \<Rightarrow> string \<Rightarrow> bool" where
  "message q m \<longleftrightarrow> m \<noteq> [] \<and> q \<notin> set m"

definition msg_call :: "string \<Rightarrow> char \<Rightarrow> string \<Rightarrow> string" where
  \<open>msg_call name q m = name @ ''('' @ [q] @ m @ [q] @ '');''\<close>

definition obj_call :: "string \<Rightarrow> char \<Rightarrow> string \<Rightarrow> string \<Rightarrow> string" where
  \<open>obj_call name q m ws = name @ ''('' @ [q] @ m @ [q] @ '','' @ ws @ ''error);''\<close>

text \<open>The rules in their order, and a text that one of them matches.\<close>

definition rules :: "(regex \<times> titem list) list" where
  "rules = [error_obj_sq, error_obj_dq, error_msg_sq, error_msg_dq, log_sq, log_dq, warn_sq, warn_dq]"

definition convertible :: "string \<Rightarrow> bool" where
  \<open>convertible x \<longleftrightarrow>
     (\<exists>q m. (q = squote \<or> q = dquote) \<and> message q m \<and>
        ((\<exists>ws. list_all is_space ws \<and> x = obj_call ''console.error'' q m ws)
         \<or> x = msg_call ''console.error'' q m
         \<or> x = msg_call ''console.log'' q m
         \<or> x = msg_call ''console.warn'' q m))\<close>

definition unmatched :: "string \<Rightarrow> bool" where
  "unmatched content \<longleftrightarrow>
     list_all (\<lambda>r. list_all (\<lambda>i. match_here (fst r) None (drop i content) None = None)
                      [0 ..< Suc (length content)]) rules"

text \<open>The two kinds of rule, by the quote and the names of the calls.\<close>

definition obj_rule :: "char \<Rightarrow> regex \<times> titem list" where
  \<open>obj_rule q =
     ([Lit (''console.error('' @ [q]), Capture (NotChar q), Lit (q # '',''),
       Star Whitespace, Lit ''error);''],
      [TLit (''logger.error('' @ [q]), TGroup,
       TLit (q # '', { error: error.message, stack: error.stack });'')])\<close>

definition msg_rule :: "string \<Rightarrow> string \<Rightarrow> char \<Rightarrow> regex \<times> titem list" where
  \<open>msg_rule old new q =
     ([Lit (old @ ''('' @ [q]), Capture (NotChar q), Lit (q # '');'')],
      [TLit (new @ ''('' @ [q]), TGroup, TLit (q # '');'')])\<close>

section \<open>The rewrite of one file and the totals of a run\<close>

text \<open>
  What the loop of \<^verbatim>\<open>main\<close> does to the text of one file, and to the world when it reads,
  rewrites and writes the file.
\<close>

definition rewrite_text :: "string \<Rightarrow> string \<Rightarrow> string" where
  "rewrite_text content filepath =
     fst (replace_console_statements (fst (add_logger_import content filepath)))"

definition rewrite_file :: "'w env \<Rightarrow> 'w \<Rightarrow> string \<Rightarrow> 'w option" where
  "rewrite_file e w filepath =
     (case read_text e w filepath of
        None \<Rightarrow> None
      | Some content \<Rightarrow> write_text e w filepath (rewrite_text content filepath))"

fun count_deltas :: "'w env \<Rightarrow> 'w \<Rightarrow> string list \<Rightarrow> int list" where
  "count_deltas e w [] = []"
| "count_deltas e w (filepath # files) =
     (case rewrite_file e w filepath of
        None \<Rightarrow> []
      | Some w' \<Rightarrow>
          (count_console_statements (run_grep e w) filepath
             - count_console_statements (run_grep e w') filepath) # count_deltas e w' files)"

fun rule_hits :: "'w env \<Rightarrow> 'w \<Rightarrow> string list \<Rightarrow> int list" where
  "rule_hits e w [] = []"
| "rule_hits e w (filepath # files) =
     (case (read_text e w filepath, rewrite_file e w filepath) of
        (Some content, Some w') \<Rightarrow>
          int (snd (replace_console_statements (fst (add_logger_import content filepath))))
            # rule_hits e w' files
      | _ \<Rightarrow> [])"

text \<open>The import line that \<^verbatim>\<open>add_logger_import\<close> inserts.\<close>

definition import_line :: "string \<Rightarrow> string" where
  \<open>import_line filepath =
     ''\<newline>const logger = require('' @ [squote] @ logger_path filepath @ ''');''\<close>

section \<open>The error statement and the matches that remain\<close>

text \<open>
  The statement \<^verbatim>\<open>console.error('X', error);\<close> and the statement that the first rule makes
  of it.
\<close>

definition error_statement :: string where
  \<open>error_statement = ''console.error('X', error);''\<close>


text \<open>
  A text that the pattern of the first rule,
  \<^verbatim>\<open>console\.error\('([^']+)',\s*error\);\<close>, matches as a whole, and a text in which some
  part matches it.
\<close>

definition error_with_identifier :: "string \<Rightarrow> bool" where
  \<open>error_with_identifier x \<longleftrightarrow>
     (\<exists>m ws. message squote m \<and> list_all is_space ws \<and> x = obj_call ''console.error'' squote m ws)\<close>







section \<open>Concrete inputs\<close>

text \<open>An environment whose commands return fixed outcomes, and file trees and texts.\<close>

definition stub_env :: "proc_outcome \<Rightarrow> (string \<Rightarrow> proc_outcome) \<Rightarrow> unit env" where
  "stub_env found counted =
     \<lparr>run_find = (\<lambda>w. found), run_grep = (\<lambda>w. counted),
      read_text = (\<lambda>w filepath. None), write_text = (\<lambda>w filepath text. None)\<rparr>"

definition two_file_tree :: files where
  \<open>two_file_tree =
     [(''src/a.js'', ''const x = require('y');\<newline>console.warn('careful');\<newline>''),
      (''src/deep/b.js'', ''console.log('ok');\<newline>'')]\<close>

definition one_line_tree :: files where
  \<open>one_line_tree = [(''src/a.js'', ''console.log('a'); console.log('b');\<newline>'')]\<close>

definition twice_input :: string where
  \<open>twice_input = ''const x = require('y');\<newline>console.log(x);\<newline>''\<close>

definition unmatched_example :: string where
  \<open>unmatched_example =
     ''console.log('a', b);\<newline>console.log('x' + y);\<newline>console.error(\<newline>  'z'\<newline>);\<newline>console.warn("w")\<newline>''\<close>



section \<open>Lemmas on the matcher\<close>

declare subn_from.simps [simp del] finditer_from.simps [simp del]


lemma first_some_None: "first_some f ks = None \<longleftrightarrow> (\<forall>k\<in>set ks. f k = None)"
  by (induction ks) (auto split: option.splits)

lemma first_some_Some: "first_some f ks = Some r \<Longrightarrow> \<exists>k\<in>set ks. f k = Some r"
  by (induction ks) (auto split: option.splits)

lemma first_some_unique:
  "(\<And>k r'. k \<in> set ks \<Longrightarrow> f k = Some r' \<Longrightarrow> r' = r) \<Longrightarrow>
   first_some f ks = (if \<exists>k\<in>set ks. f k \<noteq> None then Some r else None)"
proof (induction ks)
  case Nil
  then show ?case by simp
next
  case (Cons a ks)
  have ih: "first_some f ks = (if \<exists>k\<in>set ks. f k \<noteq> None then Some r else None)"
    using Cons.prems by (intro Cons.IH) auto
  show ?case
  proof (cases "f a")
    case None
    then show ?thesis using ih by simp
  next
    case (Some r')
    then have "r' = r" using Cons.prems [of a r'] by simp
    with Some show ?thesis by auto
  qed
qed

lemma first_some_last_only:
  assumes "\<And>k. 1 \<le> k \<Longrightarrow> k < n \<Longrightarrow> f k = None"
  shows "first_some f (rev [1 ..< Suc n]) = (if n = 0 then None else f n)"
proof (cases n)
  case 0
  then show ?thesis by simp
next
  case (Suc m)
  have "first_some f (rev [1 ..< Suc m]) = None"
    using assms Suc by (auto simp: first_some_None)
  with Suc show ?thesis by (auto split: option.splits)
qed

lemma first_some_last_only0:
  assumes "\<And>k. k < n \<Longrightarrow> f k = None"
  shows "first_some f (rev [0 ..< Suc n]) = f n"
proof -
  have "first_some f (rev [0 ..< n]) = None"
    using assms by (auto simp: first_some_None)
  then show ?thesis by (auto split: option.splits)
qed

lemma run_le: "run cl s \<le> length s"
  by (simp add: run_def length_takeWhile_le)

lemma run_nth: "k < run cl s \<Longrightarrow> in_class cl (s ! k)"
  unfolding run_def by (metis nth_mem set_takeWhileD takeWhile_nth length_takeWhile_le)

lemma drop_run_hd: "k < run cl s \<Longrightarrow> \<exists>c t. drop k s = c # t \<and> in_class cl c"
proof -
  assume k: "k < run cl s"
  then have "k < length s" using run_le [of cl s] by simp
  then have "drop k s = s ! k # drop (Suc k) s" by (simp add: Cons_nth_drop_Suc)
  with run_nth [OF k] show ?thesis by blast
qed

lemma match_Capture_Lit:
  "match_here (Capture (NotChar q) # Lit (q # l) # p) prev s g =
     (let n = run (NotChar q) s in
      if n = 0 then None
      else match_here (Lit (q # l) # p) (last_char prev (take n s)) (drop n s) (Some (take n s)))"
proof -
  have "match_here (Lit (q # l) # p) (last_char prev (take k s)) (drop k s) (Some (take k s)) = None"
    if "k < run (NotChar q) s" for k
    using drop_run_hd [OF that] by auto
  then show ?thesis
    by (simp only: match_here.simps Let_def first_some_last_only)
qed

lemma match_Star_Lit:
  assumes "\<not> in_class cl c"
  shows "match_here (Star cl # Lit (c # l) # p) prev s g =
     (let n = run cl s in
      match_here (Lit (c # l) # p) (last_char prev (take n s)) (drop n s) g)"
proof -
  have "match_here (Lit (c # l) # p) (last_char prev (take k s)) (drop k s) g = None"
    if "k < run cl s" for k
    using drop_run_hd [OF that] assms by auto
  then show ?thesis
    by (simp only: match_here.simps Let_def first_some_last_only0)
qed

lemma match_here_prev:
  "Bol \<notin> set p \<Longrightarrow> match_here p prev s g = match_here p prev' s g"
proof (induction p arbitrary: prev prev' s g)
  case Nil
  show ?case by simp
next
  case (Cons a p)
  have ih: "match_here p x t h = match_here p y t h" for x y t h
    by (rule Cons.IH) (use Cons.prems in simp)
  show ?case
  proof (cases a)
    case (Lit l)
    then show ?thesis using ih [of "last_char prev l" _ _ "last_char prev' l"] by simp
  next
    case (Plus cl)
    have "match_here p (last_char prev (take k s)) (drop k s) g
        = match_here p (last_char prev' (take k s)) (drop k s) g" for k
      by (rule ih)
    then show ?thesis using Plus by simp
  next
    case (Star cl)
    have "match_here p (last_char prev (take k s)) (drop k s) g
        = match_here p (last_char prev' (take k s)) (drop k s) g" for k
      by (rule ih)
    then show ?thesis using Star by simp
  next
    case (Capture cl)
    have "match_here p (last_char prev (take k s)) (drop k s) h
        = match_here p (last_char prev' (take k s)) (drop k s) h" for k h
      by (rule ih)
    then show ?thesis using Capture by simp
  next
    case Bol
    then show ?thesis using Cons.prems by simp
  next
    case Eol
    then show ?thesis using ih [of prev _ _ prev'] by simp
  qed
qed

lemma run_append:
  assumes "list_all (in_class cl) m" and "t = [] \<or> \<not> in_class cl (hd t)"
  shows "run cl (m @ t) = length m"
proof -
  have "takeWhile (in_class cl) t = []"
    using assms(2) by (cases t) auto
  moreover have "takeWhile (in_class cl) (m @ t) = m @ takeWhile (in_class cl) t"
    using assms(1) by (intro takeWhile_append2) (simp add: list_all_iff)
  ultimately show ?thesis by (simp add: run_def)
qed

lemma take_run: "take (run cl s) s = takeWhile (in_class cl) s"
  by (simp add: run_def takeWhile_eq_take [symmetric])

lemma drop_run: "drop (run cl s) s = dropWhile (in_class cl) s"
  by (simp add: run_def dropWhile_eq_drop [symmetric])

lemma match_msg_iff:
  "match_here [Lit a, Capture (NotChar q), Lit (q # l)] prev s None = Some (g, rest) \<longleftrightarrow>
     (\<exists>m. g = Some m \<and> m \<noteq> [] \<and> q \<notin> set m \<and> s = a @ m @ (q # l) @ rest)"
  (is "?L \<longleftrightarrow> ?R")
proof
  assume L: ?L
  then have pa: "prefix a s" by (simp split: if_splits)
  define s1 where "s1 = drop (length a) s"
  define n where "n = run (NotChar q) s1"
  from pa have s: "s = a @ s1" by (auto simp: prefix_def s1_def)
  from L pa have n0: "n \<noteq> 0" and pl: "prefix (q # l) (drop n s1)"
    and g: "g = Some (take n s1)" and r: "rest = drop (length (q # l)) (drop n s1)"
    by (auto simp: match_Capture_Lit Let_def s1_def n_def simp del: match_here.simps(5) split: if_splits)
  have "take n s1 = takeWhile (in_class (NotChar q)) s1"
    using take_run [of "NotChar q" s1] by (simp add: n_def)
  then have nq: "q \<notin> set (take n s1)" by (auto dest: set_takeWhileD)
  have ne: "take n s1 \<noteq> []" using n0 run_le [of "NotChar q" s1] by (auto simp: n_def)
  from pl obtain zs where zs: "drop n s1 = (q # l) @ zs" by (auto simp: prefix_def)
  have "rest = zs" unfolding r zs by simp
  with zs have "s1 = take n s1 @ (q # l) @ rest" by (metis append_take_drop_id)
  with s g nq ne show ?R by auto
next
  assume ?R
  then obtain m where g: "g = Some m" and ne: "m \<noteq> []" and nq: "q \<notin> set m"
    and s: "s = a @ m @ (q # l) @ rest" by blast
  have rn: "run (NotChar q) (m @ q # l @ rest) = length m"
    using run_append [of "NotChar q" m "q # l @ rest"] nq by (auto simp: list_all_iff)
  show ?L using ne
    by (simp add: s g match_Capture_Lit Let_def rn del: match_here.simps(5))
qed

lemma match_obj_iff:
  assumes "\<not> is_space c"
  shows "match_here [Lit a, Capture (NotChar q), Lit (q # l), Star Whitespace, Lit (c # t)] prev s None
           = Some (g, rest) \<longleftrightarrow>
     (\<exists>m ws. g = Some m \<and> m \<noteq> [] \<and> q \<notin> set m \<and> list_all is_space ws
        \<and> s = a @ m @ (q # l) @ ws @ (c # t) @ rest)"
  (is "?L \<longleftrightarrow> ?R")
proof
  assume L: ?L
  then have pa: "prefix a s" by (simp split: if_splits)
  define s1 where "s1 = drop (length a) s"
  define n where "n = run (NotChar q) s1"
  define s2 where "s2 = drop (length (q # l)) (drop n s1)"
  define k where "k = run Whitespace s2"
  from pa have s: "s = a @ s1" by (auto simp: prefix_def s1_def)
  have nc: "\<not> in_class Whitespace c" using assms by simp
  from L pa have n0: "n \<noteq> 0" and pl: "prefix (q # l) (drop n s1)"
    and g: "g = Some (take n s1)" 
    and pt: "prefix (c # t) (drop k s2)" and r: "rest = drop (length (c # t)) (drop k s2)"
    by (auto simp: match_Capture_Lit match_Star_Lit [OF nc] Let_def s1_def n_def s2_def k_def
        simp del: match_here.simps(4,5) split: if_splits)
  have "take n s1 = takeWhile (in_class (NotChar q)) s1"
    using take_run [of "NotChar q" s1] by (simp add: n_def)
  then have nq: "q \<notin> set (take n s1)" by (auto dest: set_takeWhileD)
  have ne: "take n s1 \<noteq> []" using n0 run_le [of "NotChar q" s1] by (auto simp: n_def)
  have "take k s2 = takeWhile (in_class Whitespace) s2"
    using take_run [of Whitespace s2] by (simp add: k_def)
  then have ws: "list_all is_space (take k s2)" by (auto simp: list_all_iff dest: set_takeWhileD)
  from pl obtain zs where zs: "drop n s1 = (q # l) @ zs" by (auto simp: prefix_def)
  have "s2 = zs" unfolding s2_def zs by simp
  with zs have 1: "s1 = take n s1 @ (q # l) @ s2" by (metis append_take_drop_id)
  from pt obtain ys where ys: "drop k s2 = (c # t) @ ys" by (auto simp: prefix_def)
  have "rest = ys" unfolding r ys by simp
  with ys have 2: "s2 = take k s2 @ (c # t) @ rest" by (metis append_take_drop_id)
  have "s = a @ take n s1 @ (q # l) @ take k s2 @ (c # t) @ rest"
    using s 1 2 by metis
  with g nq ne ws show ?R by blast
next
  assume ?R
  then obtain m ws where g: "g = Some m" and ne: "m \<noteq> []" and nq: "q \<notin> set m"
    and ws: "list_all is_space ws"
    and s: "s = a @ m @ (q # l) @ ws @ (c # t) @ rest" by blast
  have nc: "\<not> in_class Whitespace c" using assms by simp
  have rn: "run (NotChar q) (m @ q # l @ ws @ c # t @ rest) = length m"
    using run_append [of "NotChar q" m "q # l @ ws @ c # t @ rest"] nq by (auto simp: list_all_iff)
  have rk: "run Whitespace (ws @ c # t @ rest) = length ws"
    using run_append [of Whitespace ws "c # t @ rest"] ws assms by (auto simp: list_all_iff)
  show ?L using ne rk
    by (simp add: s g match_Capture_Lit match_Star_Lit [OF nc] Let_def rn del: match_here.simps(4,5))
qed

subsection \<open>The scan of \<^verbatim>\<open>re.subn\<close>\<close>

lemma subn_from_Nil:
  "subn_from p tm prev [] =
     (case match_here p prev [] None of None \<Rightarrow> ([], 0) | Some (g, rest) \<Rightarrow> (expand tm g, 1))"
  by (subst subn_from.simps) (auto split: option.splits)

lemma subn_from_Cons_None:
  "match_here p prev (c # cs) None = None \<Longrightarrow>
   subn_from p tm prev (c # cs) = (c # fst (subn_from p tm (Some c) cs), snd (subn_from p tm (Some c) cs))"
  by (subst subn_from.simps) (simp add: case_prod_beta)



lemma subn_from_no_match:
  assumes "Bol \<notin> set p"
  shows "(\<And>pre t. s = pre @ t \<Longrightarrow> match_here p None t None = None) \<Longrightarrow>
         subn_from p tm prev s = (s, 0)"
proof (induction s arbitrary: prev)
  case Nil
  have "match_here p prev [] None = None"
    using Nil [of "[]" "[]"] match_here_prev [OF assms, of prev "[]" None None] by simp
  then show ?case by (simp add: subn_from_Nil)
next
  case (Cons c cs)
  have "match_here p prev (c # cs) None = None"
    using Cons.prems [of "[]" "c # cs"] match_here_prev [OF assms, of prev "c # cs" None None]
    by simp
  moreover have "subn_from p tm (Some c) cs = (cs, 0)"
  proof (rule Cons.IH)
    fix pre t assume "cs = pre @ t"
    then show "match_here p None t None = None"
      using Cons.prems [of "c # pre" t] by simp
  qed
  ultimately show ?case by (simp add: subn_from_Cons_None)
qed




subsection \<open>The pattern of the import lines\<close>

lemma take_le_run: "k \<le> run cl s \<Longrightarrow> list_all (in_class cl) (take k s)"
proof -
  assume "k \<le> run cl s"
  then have "take k s = take k (takeWhile (in_class cl) s)"
    by (simp add: take_run [symmetric] min_def)
  then have "set (take k s) \<subseteq> set (takeWhile (in_class cl) s)"
    by (metis set_take_subset)
  then show ?thesis by (auto simp: list_all_iff dest: set_takeWhileD)
qed

lemma run_ge: "list_all (in_class cl) a \<Longrightarrow> length a \<le> run cl (a @ t)"
proof -
  assume "list_all (in_class cl) a"
  then have "takeWhile (in_class cl) (a @ t) = a @ takeWhile (in_class cl) t"
    by (intro takeWhile_append2) (simp add: list_all_iff)
  then show ?thesis by (simp add: run_def)
qed

lemma match_Lit:
  "match_here (Lit l # p) prev s g = Some r \<longleftrightarrow>
     (\<exists>t. s = l @ t \<and> match_here p (last_char prev l) t g = Some r)"
  by (auto simp: prefix_def)

lemma match_Plus_Some:
  assumes "match_here (Plus cl # p) prev s g = Some r"
  shows "\<exists>a t. s = a @ t \<and> a \<noteq> [] \<and> list_all (in_class cl) a
           \<and> match_here p (last_char prev a) t g = Some r"
proof -
  from assms obtain k where k: "1 \<le> k" "k \<le> run cl s"
    and m: "match_here p (last_char prev (take k s)) (drop k s) g = Some r"
    by (auto dest!: first_some_Some)
  have "take k s \<noteq> []" using k run_le [of cl s] by auto
  moreover have "list_all (in_class cl) (take k s)" using k by (simp add: take_le_run)
  moreover have "s = take k s @ drop k s" by simp
  ultimately show ?thesis using m by blast
qed

lemma match_Plus_ex:
  assumes "a \<noteq> []" and "list_all (in_class cl) a"
    and "match_here p (last_char prev a) t g \<noteq> None"
  shows "match_here (Plus cl # p) prev (a @ t) g \<noteq> None"
proof -
  have k: "length a \<in> set (rev [1 ..< Suc (run cl (a @ t))])"
    using assms(1) run_ge [OF assms(2), of t] by (cases a) auto
  have m: "match_here p (last_char prev (take (length a) (a @ t))) (drop (length a) (a @ t)) g \<noteq> None"
    using assms(3) by simp
  show ?thesis
    unfolding match_here.simps first_some_None
  proof
    assume "\<forall>k\<in>set (rev [1 ..< Suc (run cl (a @ t))]).
              match_here p (last_char prev (take k (a @ t))) (drop k (a @ t)) g = None"
    from bspec [OF this k] m show False by simp
  qed
qed

lemma line_split:
  assumes "newline \<notin> set l" and "rest = [] \<or> hd rest = newline"
  shows "takeWhile (\<lambda>c. c \<noteq> newline) (l @ rest) = l"
    and "dropWhile (\<lambda>c. c \<noteq> newline) (l @ rest) = rest"
proof -
  have 1: "takeWhile (\<lambda>c. c \<noteq> newline) rest = []" using assms(2) by (cases rest) auto
  have 2: "dropWhile (\<lambda>c. c \<noteq> newline) rest = rest" using assms(2) by (cases rest) auto
  have nl: "x \<noteq> newline" if "x \<in> set l" for x using assms(1) that by auto
  show "takeWhile (\<lambda>c. c \<noteq> newline) (l @ rest) = l"
    using takeWhile_append2 [of l "\<lambda>c. c \<noteq> newline" rest] nl 1 by simp
  show "dropWhile (\<lambda>c. c \<noteq> newline) (l @ rest) = rest"
    using dropWhile_append2 [of l "\<lambda>c. c \<noteq> newline" rest] nl 2 by simp
qed

lemma require_tail_sound:
  assumes "match_here [Lit ''const '', Plus AnyChar, Lit '' = require('', Plus AnyChar,
             Lit '');'', Eol] prev s None = Some r"
  shows "\<exists>l rest. s = l @ rest \<and> require_line l \<and> (rest = [] \<or> hd rest = newline)
           \<and> r = (None, rest)"
proof -
  from assms obtain t1 where s: "s = ''const '' @ t1"
    and m1: "match_here [Plus AnyChar, Lit '' = require('', Plus AnyChar, Lit '');'', Eol]
               (last_char prev ''const '') t1 None = Some r"
    unfolding match_Lit by blast
  from match_Plus_Some [OF m1] obtain a t2 pa where t1: "t1 = a @ t2" and a: "a \<noteq> []"
    "list_all (in_class AnyChar) a"
    and m2: "match_here [Lit '' = require('', Plus AnyChar, Lit '');'', Eol] pa t2 None = Some r"
    by blast
  from m2 obtain t3 pb where t2: "t2 = '' = require('' @ t3"
    and m3: "match_here [Plus AnyChar, Lit '');'', Eol] pb t3 None = Some r"
    unfolding match_Lit by blast
  from match_Plus_Some [OF m3] obtain b t4 pc where t3: "t3 = b @ t4" and b: "b \<noteq> []"
    "list_all (in_class AnyChar) b"
    and m4: "match_here [Lit '');'', Eol] pc t4 None = Some r"
    by blast
  from m4 obtain rest where t4: "t4 = '');'' @ rest"
    and m5: "match_here [Eol] (last_char pc '');'') rest None = Some r"
    unfolding match_Lit by blast
  from m5 have e: "rest = [] \<or> hd rest = newline" and r: "r = (None, rest)"
    by (auto split: if_splits)
  let ?l = "''const '' @ a @ '' = require('' @ b @ '');''"
  have "newline \<notin> set ?l" using a(2) b(2) by (auto simp: list_all_iff)
  then have "require_line ?l" using a(1) b(1) unfolding require_line_def by blast
  moreover have "s = ?l @ rest" by (simp add: s t1 t2 t3 t4)
  ultimately show ?thesis using e r by blast
qed

lemma require_tail_complete:
  assumes "require_line l" and "rest = [] \<or> hd rest = newline"
  shows "match_here [Lit ''const '', Plus AnyChar, Lit '' = require('', Plus AnyChar,
           Lit '');'', Eol] prev (l @ rest) None \<noteq> None"
proof -
  from assms(1) obtain a b where a: "a \<noteq> []" and b: "b \<noteq> []"
    and l: "l = ''const '' @ a @ '' = require('' @ b @ '');''" and nl: "newline \<notin> set l"
    unfolding require_line_def by blast
  have ca: "list_all (in_class AnyChar) a" and cb: "list_all (in_class AnyChar) b"
    using nl by (auto simp: l list_all_iff)
  have 5: "match_here [Lit '');'', Eol] pc ('');'' @ rest) None \<noteq> None" for pc
    using assms(2) by auto
  have 4: "match_here [Plus AnyChar, Lit '');'', Eol] pb (b @ '');'' @ rest) None \<noteq> None" for pb
    by (rule match_Plus_ex [OF b cb 5])
  have 3: "match_here [Lit '' = require('', Plus AnyChar, Lit '');'', Eol] pa
             ('' = require('' @ b @ '');'' @ rest) None \<noteq> None" for pa
    using 4 [of "last_char pa '' = require(''"] by (simp del: match_here.simps(3))
  have 2: "match_here [Plus AnyChar, Lit '' = require('', Plus AnyChar, Lit '');'', Eol] pz
             (a @ '' = require('' @ b @ '');'' @ rest) None \<noteq> None" for pz
    by (rule match_Plus_ex [OF a ca 3])
  show ?thesis
    using 2 [of "last_char prev ''const ''"] by (simp add: l del: match_here.simps(3))
qed

lemma match_require:
  "match_here require_pattern prev s None =
     (if (prev = None \<or> prev = Some newline) \<and> require_line (takeWhile (\<lambda>c. c \<noteq> newline) s)
      then Some (None, dropWhile (\<lambda>c. c \<noteq> newline) s) else None)"
proof -
  let ?p = "[Lit ''const '', Plus AnyChar, Lit '' = require('', Plus AnyChar, Lit '');'', Eol]"
  let ?l = "takeWhile (\<lambda>c. c \<noteq> newline) s" and ?r = "dropWhile (\<lambda>c. c \<noteq> newline) s"
  have e: "?r = [] \<or> hd ?r = newline"
    using hd_dropWhile [of "\<lambda>c. c \<noteq> newline" s] by auto
  have tail: "match_here ?p prev s None = (if require_line ?l then Some (None, ?r) else None)"
  proof (cases "match_here ?p prev s None")
    case None
    have "\<not> require_line ?l"
    proof
      assume "require_line ?l"
      from require_tail_complete [OF this e, of prev] None show False by simp
    qed
    with None show ?thesis by simp
  next
    case (Some r)
    from require_tail_sound [OF Some] obtain l rest where s: "s = l @ rest" and l: "require_line l"
      and rest: "rest = [] \<or> hd rest = newline" and r: "r = (None, rest)" by blast
    have "newline \<notin> set l" using l by (simp add: require_line_def)
    from line_split [OF this rest] have "?l = l" "?r = rest" by (simp_all add: s)
    with Some l r show ?thesis by simp
  qed
  show ?thesis
    unfolding require_pattern_def match_here.simps(6) using tail by simp
qed

lemma require_line_nonempty: "require_line l \<Longrightarrow> l \<noteq> []"
  by (auto simp: require_line_def)

lemma finditer_require_skip:
  "\<not> at_require prev s \<Longrightarrow>
   finditer_from require_pattern prev i s =
     (case s of [] \<Rightarrow> [] | c # cs \<Rightarrow> finditer_from require_pattern (Some c) (Suc i) cs)"
  by (subst finditer_from.simps) (auto simp: match_require at_require_def)

lemma finditer_require_hit:
  assumes "at_require prev s"
  shows "finditer_from require_pattern prev i s =
     (i, i + length (line_head s))
       # finditer_from require_pattern (Some (last (line_head s))) (i + length (line_head s))
           (line_rest s)"
proof -
  have ne: "line_head s \<noteq> []"
    using assms by (auto simp: at_require_def dest: require_line_nonempty)
  have len: "length s - length (line_rest s) = length (line_head s)"
    by (metis add_diff_cancel_right' length_append takeWhile_dropWhile_id)
  have tk: "take (length (line_head s)) s = line_head s"
    by (simp add: takeWhile_eq_take [symmetric])
  from ne have pos: "length (line_head s) \<noteq> 0" by simp
  with len have lt: "\<not> length s \<le> length (line_rest s)" by linarith
  show ?thesis
    using assms pos ne lt
    by (subst finditer_from.simps)
       (simp add: match_require at_require_def len tk last_char_def Let_def)
qed

lemma line_head_rest_end: "line_rest s = [] \<or> hd (line_rest s) = newline"
  using hd_dropWhile [of "\<lambda>c. c \<noteq> newline" s] by auto

lemma line_head_no_newline: "newline \<notin> set (line_head s)"
  by (auto dest: set_takeWhileD)

lemma finditer_require_sound:
  "(a, b) \<in> set (finditer_from require_pattern prev i s) \<Longrightarrow>
   \<exists>pre l post. s = pre @ l @ post \<and> is_line prev pre l post \<and> require_line l
      \<and> a = i + length pre \<and> b = a + length l"
proof (induction "length s" arbitrary: s prev i rule: less_induct)
  case less
  show ?case
  proof (cases "at_require prev s")
    case False
    with less.prems obtain c cs where s: "s = c # cs"
      and mem: "(a, b) \<in> set (finditer_from require_pattern (Some c) (Suc i) cs)"
      by (auto simp: finditer_require_skip split: list.splits)
    from less.hyps [OF _ mem] s obtain pre l post where cs: "cs = pre @ l @ post"
      and il: "is_line (Some c) pre l post" and rl: "require_line l"
      and a: "a = Suc i + length pre" and b: "b = a + length l" by auto
    have "is_line prev (c # pre) l post"
      using il by (auto simp: is_line_def split: if_splits)
    moreover have "s = (c # pre) @ l @ post" by (simp add: s cs)
    moreover have "a = i + length (c # pre)" by (simp add: a)
    ultimately show ?thesis using rl b by blast
  next
    case True
    let ?l0 = "line_head s" and ?r0 = "line_rest s"
    have ne: "?l0 \<noteq> []" using True by (auto simp: at_require_def dest: require_line_nonempty)
    have s: "s = ?l0 @ ?r0" by simp
    from less.prems True
    consider "(a, b) = (i, i + length ?l0)"
      | "(a, b) \<in> set (finditer_from require_pattern (Some (last ?l0)) (i + length ?l0) ?r0)"
      by (auto simp: finditer_require_hit)
    then show ?thesis
    proof cases
      case 1
      have "is_line prev [] ?l0 ?r0"
        using True line_head_rest_end [of s] line_head_no_newline [of s]
        by (simp add: is_line_def at_require_def)
      moreover have "s = [] @ ?l0 @ ?r0" by simp
      moreover have "require_line ?l0" using True by (simp add: at_require_def)
      ultimately show ?thesis using 1 by (metis Pair_inject add.right_neutral list.size(3))
    next
      case 2
      have "length ?r0 < length s"
        using ne by (metis s length_append length_greater_0_conv less_add_same_cancel2)
      from less.hyps [OF this 2] obtain pre l post where r0: "?r0 = pre @ l @ post"
        and il: "is_line (Some (last ?l0)) pre l post" and rl: "require_line l"
        and a: "a = i + length ?l0 + length pre" and b: "b = a + length l" by auto
      have "last ?l0 \<noteq> newline"
        using ne line_head_no_newline [of s] last_in_set [of ?l0] by metis
      with il have pre: "pre \<noteq> []" "last pre = newline"
        by (auto simp: is_line_def split: if_splits)
      then have "is_line prev (?l0 @ pre) l post"
        using il by (simp add: is_line_def)
      moreover have "s = (?l0 @ pre) @ l @ post" using r0 s by (metis append.assoc)
      moreover have "a = i + length (?l0 @ pre)" by (simp add: a)
      ultimately show ?thesis using rl b by blast
    qed
  qed
qed

lemma finditer_require_complete:
  "is_line prev pre l post \<Longrightarrow> require_line l \<Longrightarrow>
   (i + length pre, i + length pre + length l)
     \<in> set (finditer_from require_pattern prev i (pre @ l @ post))"
proof (induction "length pre" arbitrary: pre prev i rule: less_induct)
  case less
  let ?s = "pre @ l @ post"
  have nl: "newline \<notin> set l" and post: "post = [] \<or> hd post = newline"
    using less.prems(1) by (simp_all add: is_line_def)
  show ?case
  proof (cases pre)
    case Nil
    from line_split [OF nl post] have "line_head (l @ post) = l" by simp
    moreover have "prev = None \<or> prev = Some newline"
      using less.prems(1) Nil by (simp add: is_line_def)
    ultimately have "at_require prev (l @ post)"
      using less.prems(2) by (simp add: at_require_def)
    from finditer_require_hit [OF this] \<open>line_head (l @ post) = l\<close> show ?thesis
      by (simp add: Nil)
  next
    case (Cons c pre')
    have lp: "last pre = newline" using less.prems(1) Cons by (simp add: is_line_def)
    show ?thesis
    proof (cases "at_require prev ?s")
      case False
      have il: "is_line (Some c) pre' l post"
        using less.prems(1) Cons by (auto simp: is_line_def split: if_splits)
      have "length pre' < length pre" by (simp add: Cons)
      from less.hyps [OF this il less.prems(2), of "Suc i"]
      show ?thesis using False by (simp add: finditer_require_skip Cons)
    next
      case True
      have "newline \<in> set pre" using lp Cons last_in_set [of pre] by auto
      then have h: "line_head ?s = line_head pre" and r: "line_rest ?s = line_rest pre @ l @ post"
        by (simp_all add: takeWhile_append1 dropWhile_append1)
      let ?l0 = "line_head pre" and ?p = "line_rest pre"
      have ne: "?l0 \<noteq> []"
        using True h by (auto simp: at_require_def dest: require_line_nonempty)
      have pne: "?p \<noteq> []" using \<open>newline \<in> set pre\<close> by (simp add: dropWhile_eq_Nil_conv)
      have pre: "pre = ?l0 @ ?p" by simp
      have "last ?p = newline" using lp pne pre by (metis last_appendR)
      then have il: "is_line (Some (last ?l0)) ?p l post"
        using pne nl post unfolding is_line_def by auto
      have "length ?p < length pre"
        using ne by (metis pre length_append length_greater_0_conv less_add_same_cancel2)
      from less.hyps [OF this il less.prems(2), of "i + length ?l0"]
      have "(i + length ?l0 + length ?p, i + length ?l0 + length ?p + length l)
              \<in> set (finditer_from require_pattern (Some (last ?l0)) (i + length ?l0) (?p @ l @ post))" .
      moreover have "length pre = length ?l0 + length ?p"
        by (metis pre length_append)
      ultimately have "(i + length pre, i + length pre + length l)
              \<in> set (finditer_from require_pattern (Some (last ?l0)) (i + length ?l0) (?p @ l @ post))"
        by (simp add: add.assoc)
      then show ?thesis
        using finditer_require_hit [OF True, of i] by (simp add: h r)
    qed
  qed
qed

lemma finditer_require_ge:
  "(a, b) \<in> set (finditer_from require_pattern prev i s) \<Longrightarrow> i \<le> a"
  by (auto dest: finditer_require_sound)

lemma finditer_require_sorted:
  "sorted (map fst (finditer_from require_pattern prev i s))"
proof (induction "length s" arbitrary: s prev i rule: less_induct)
  case less
  show ?case
  proof (cases "at_require prev s")
    case False
    show ?thesis
    proof (cases s)
      case Nil
      then show ?thesis using False by (simp add: finditer_require_skip)
    next
      case (Cons c cs)
      then show ?thesis using False less.hyps [of cs] by (simp add: finditer_require_skip)
    qed
  next
    case True
    let ?l0 = "line_head s" and ?r0 = "line_rest s"
    have ne: "?l0 \<noteq> []" using True by (auto simp: at_require_def dest: require_line_nonempty)
    have "length s = length ?l0 + length ?r0"
      by (metis length_append takeWhile_dropWhile_id)
    then have "length ?r0 < length s" using ne by simp
    from less.hyps [OF this]
    have "sorted (map fst (finditer_from require_pattern (Some (last ?l0)) (i + length ?l0) ?r0))" .
    moreover have "i \<le> fst x"
      if "x \<in> set (finditer_from require_pattern (Some (last ?l0)) (i + length ?l0) ?r0)" for x
      using finditer_require_ge [of "fst x" "snd x"] that by fastforce
    ultimately show ?thesis
      by (auto simp: finditer_require_hit [OF True])
  qed
qed

subsection \<open>The rules and the shapes they match\<close>

lemma rules_unfold:
  \<open>rules = [obj_rule squote, obj_rule dquote,
            msg_rule ''console.error'' ''logger.error'' squote,
            msg_rule ''console.error'' ''logger.error'' dquote,
            msg_rule ''console.log'' ''logger.info'' squote,
            msg_rule ''console.log'' ''logger.info'' dquote,
            msg_rule ''console.warn'' ''logger.warn'' squote,
            msg_rule ''console.warn'' ''logger.warn'' dquote]\<close>
  by (simp add: rules_def obj_rule_def msg_rule_def error_obj_sq_def error_obj_dq_def
      error_msg_sq_def error_msg_dq_def log_sq_def log_dq_def warn_sq_def warn_dq_def)

lemma replace_console_statements_fold:
  "replace_console_statements content = foldl (\<lambda>st r. apply_rule r st) (content, 0) rules"
  by (simp add: replace_console_statements_def rules_def Let_def)

lemma match_obj_rule:
  \<open>match_here (fst (obj_rule q)) prev s None = Some (g, rest) \<longleftrightarrow>
     (\<exists>m ws. g = Some m \<and> message q m \<and> list_all is_space ws
        \<and> s = obj_call ''console.error'' q m ws @ rest)\<close>
proof -
  have e: \<open>\<not> is_space CHR ''e''\<close> by (simp add: is_space_def)
  show ?thesis
    using match_obj_iff [OF e, of \<open>''console.error('' @ [q]\<close> q \<open>'',''\<close> \<open>''rror);''\<close> prev s g rest]
    by (simp add: obj_rule_def message_def obj_call_def)
qed

lemma match_msg_rule:
  \<open>match_here (fst (msg_rule old new q)) prev s None = Some (g, rest) \<longleftrightarrow>
     (\<exists>m. g = Some m \<and> message q m \<and> s = msg_call old q m @ rest)\<close>
  using match_msg_iff [of \<open>old @ ''('' @ [q]\<close> q \<open>'');''\<close> prev s g rest]
  by (simp add: msg_rule_def message_def msg_call_def)



lemma rules_no_Bol: "r \<in> set rules \<Longrightarrow> Bol \<notin> set (fst r)"
  by (auto simp: rules_unfold obj_rule_def msg_rule_def)


lemma convertible_objI:
  assumes "q = squote \<or> q = dquote" and "message q m" and "list_all is_space ws"
  shows \<open>convertible (obj_call ''console.error'' q m ws)\<close>
  unfolding convertible_def
proof (rule exI [of _ q], rule exI [of _ m], intro conjI)
  show \<open>(\<exists>ws'. list_all is_space ws' \<and> obj_call ''console.error'' q m ws = obj_call ''console.error'' q m ws')
      \<or> obj_call ''console.error'' q m ws = msg_call ''console.error'' q m
      \<or> obj_call ''console.error'' q m ws = msg_call ''console.log'' q m
      \<or> obj_call ''console.error'' q m ws = msg_call ''console.warn'' q m\<close>
    using assms(3) by (intro disjI1 exI [of _ ws] conjI refl)
qed (use assms in simp_all)

lemma convertible_msgI:
  assumes "q = squote \<or> q = dquote" and "message q m"
    and \<open>old = ''console.error'' \<or> old = ''console.log'' \<or> old = ''console.warn''\<close>
  shows "convertible (msg_call old q m)"
  unfolding convertible_def
proof (rule exI [of _ q], rule exI [of _ m], intro conjI)
  show \<open>(\<exists>ws. list_all is_space ws \<and> msg_call old q m = obj_call ''console.error'' q m ws)
      \<or> msg_call old q m = msg_call ''console.error'' q m
      \<or> msg_call old q m = msg_call ''console.log'' q m
      \<or> msg_call old q m = msg_call ''console.warn'' q m\<close>
    using assms(3) by (elim disjE) simp_all
qed (use assms in simp_all)

lemma obj_rule_convertible:
  assumes "q = squote \<or> q = dquote" and "match_here (fst (obj_rule q)) prev s None \<noteq> None"
  shows "\<exists>x rest. s = x @ rest \<and> convertible x"
proof -
  from assms(2) obtain g rest where "match_here (fst (obj_rule q)) prev s None = Some (g, rest)"
    by (cases "match_here (fst (obj_rule q)) prev s None") auto
  then obtain m ws where "message q m" "list_all is_space ws"
    and s: \<open>s = obj_call ''console.error'' q m ws @ rest\<close>
    unfolding match_obj_rule by auto
  from convertible_objI [OF assms(1) this(1,2)] s show ?thesis by (intro exI conjI)
qed

lemma msg_rule_convertible:
  assumes "q = squote \<or> q = dquote"
    and \<open>old = ''console.error'' \<or> old = ''console.log'' \<or> old = ''console.warn''\<close>
    and "match_here (fst (msg_rule old new q)) prev s None \<noteq> None"
  shows "\<exists>x rest. s = x @ rest \<and> convertible x"
proof -
  from assms(3) obtain g rest
    where "match_here (fst (msg_rule old new q)) prev s None = Some (g, rest)"
    by (cases "match_here (fst (msg_rule old new q)) prev s None") auto
  then obtain m where "message q m" and s: "s = msg_call old q m @ rest"
    unfolding match_msg_rule by auto
  from convertible_msgI [OF assms(1) this(1) assms(2)] s show ?thesis by (intro exI conjI)
qed

lemma rule_match_convertible:
  assumes "r \<in> set rules" and "match_here (fst r) prev s None \<noteq> None"
  shows "\<exists>x rest. s = x @ rest \<and> convertible x"
proof -
  from assms(1) have
    \<open>r = obj_rule squote \<or> r = obj_rule dquote
     \<or> r = msg_rule ''console.error'' ''logger.error'' squote
     \<or> r = msg_rule ''console.error'' ''logger.error'' dquote
     \<or> r = msg_rule ''console.log'' ''logger.info'' squote
     \<or> r = msg_rule ''console.log'' ''logger.info'' dquote
     \<or> r = msg_rule ''console.warn'' ''logger.warn'' squote
     \<or> r = msg_rule ''console.warn'' ''logger.warn'' dquote\<close>
    unfolding rules_unfold by (simp only: list.set insert_iff empty_iff) simp
  then show ?thesis
  proof (elim disjE)
    assume "r = obj_rule squote"
    with assms(2) show ?thesis by (intro obj_rule_convertible [of squote prev s]) simp_all
  next
    assume "r = obj_rule dquote"
    with assms(2) show ?thesis by (intro obj_rule_convertible [of dquote prev s]) simp_all
  next
    assume \<open>r = msg_rule ''console.error'' ''logger.error'' squote\<close>
    with assms(2) show ?thesis
      by (intro msg_rule_convertible [of squote _ _ prev s]) (rule disjI1, rule refl, rule disjI1, rule refl, simp)
  next
    assume \<open>r = msg_rule ''console.error'' ''logger.error'' dquote\<close>
    with assms(2) show ?thesis
      by (intro msg_rule_convertible [of dquote _ _ prev s]) (rule disjI2, rule refl, rule disjI1, rule refl, simp)
  next
    assume \<open>r = msg_rule ''console.log'' ''logger.info'' squote\<close>
    with assms(2) show ?thesis
      by (intro msg_rule_convertible [of squote _ _ prev s])
         (rule disjI1, rule refl, rule disjI2, rule disjI1, rule refl, simp)
  next
    assume \<open>r = msg_rule ''console.log'' ''logger.info'' dquote\<close>
    with assms(2) show ?thesis
      by (intro msg_rule_convertible [of dquote _ _ prev s])
         (rule disjI2, rule refl, rule disjI2, rule disjI1, rule refl, simp)
  next
    assume \<open>r = msg_rule ''console.warn'' ''logger.warn'' squote\<close>
    with assms(2) show ?thesis
      by (intro msg_rule_convertible [of squote _ _ prev s])
         (rule disjI1, rule refl, rule disjI2, rule disjI2, rule refl, simp)
  next
    assume \<open>r = msg_rule ''console.warn'' ''logger.warn'' dquote\<close>
    with assms(2) show ?thesis
      by (intro msg_rule_convertible [of dquote _ _ prev s])
         (rule disjI2, rule refl, rule disjI2, rule disjI2, rule refl, simp)
  qed
qed

lemma obj_rule_complete:
  \<open>message q m \<Longrightarrow> list_all is_space ws \<Longrightarrow>
   match_here (fst (obj_rule q)) None (obj_call ''console.error'' q m ws @ rest) None
     = Some (Some m, rest)\<close>
  unfolding match_obj_rule by (intro exI [of _ m] exI [of _ ws] conjI refl)

lemma msg_rule_complete:
  \<open>message q m \<Longrightarrow>
   match_here (fst (msg_rule old new q)) None (msg_call old q m @ rest) None = Some (Some m, rest)\<close>
  unfolding match_msg_rule by (intro exI [of _ m] conjI refl)

lemma rules_mem:
  \<open>obj_rule squote \<in> set rules\<close> \<open>obj_rule dquote \<in> set rules\<close>
  \<open>msg_rule ''console.error'' ''logger.error'' squote \<in> set rules\<close>
  \<open>msg_rule ''console.error'' ''logger.error'' dquote \<in> set rules\<close>
  \<open>msg_rule ''console.log'' ''logger.info'' squote \<in> set rules\<close>
  \<open>msg_rule ''console.log'' ''logger.info'' dquote \<in> set rules\<close>
  \<open>msg_rule ''console.warn'' ''logger.warn'' squote \<in> set rules\<close>
  \<open>msg_rule ''console.warn'' ''logger.warn'' dquote \<in> set rules\<close>
  unfolding rules_unfold by (simp_all only: list.set insert_iff refl simp_thms)

lemma convertible_rule_match:
  assumes "convertible x"
  shows "\<exists>r\<in>set rules. match_here (fst r) None (x @ rest) None \<noteq> None"
proof -
  from assms obtain q m where q: "q = squote \<or> q = dquote" and m: "message q m"
    and x: \<open>(\<exists>ws. list_all is_space ws \<and> x = obj_call ''console.error'' q m ws)
         \<or> x = msg_call ''console.error'' q m
         \<or> x = msg_call ''console.log'' q m
         \<or> x = msg_call ''console.warn'' q m\<close>
    unfolding convertible_def by (elim exE conjE)
  have o: "obj_rule q \<in> set rules"
    using q by (elim disjE) (simp_all add: rules_mem)
  have e: \<open>msg_rule ''console.error'' ''logger.error'' q \<in> set rules\<close>
    using q by (elim disjE) (simp_all add: rules_mem)
  have l: \<open>msg_rule ''console.log'' ''logger.info'' q \<in> set rules\<close>
    using q by (elim disjE) (simp_all add: rules_mem)
  have w: \<open>msg_rule ''console.warn'' ''logger.warn'' q \<in> set rules\<close>
    using q by (elim disjE) (simp_all add: rules_mem)
  from x show ?thesis
  proof (elim disjE exE conjE)
    fix ws assume ws: "list_all is_space ws" and x: \<open>x = obj_call ''console.error'' q m ws\<close>
    show ?thesis
      by (rule bexI [OF _ o]) (simp add: x obj_rule_complete [OF m ws])
  next
    assume x: \<open>x = msg_call ''console.error'' q m\<close>
    show ?thesis
      by (rule bexI [OF _ e]) (simp add: x msg_rule_complete [OF m])
  next
    assume x: \<open>x = msg_call ''console.log'' q m\<close>
    show ?thesis
      by (rule bexI [OF _ l]) (simp add: x msg_rule_complete [OF m])
  next
    assume x: \<open>x = msg_call ''console.warn'' q m\<close>
    show ?thesis
      by (rule bexI [OF _ w]) (simp add: x msg_rule_complete [OF m])
  qed
qed

subsection \<open>The rules applied in sequence\<close>

lemma unmatched_iff:
  "unmatched content \<longleftrightarrow> (\<forall>pre x post. content = pre @ x @ post \<longrightarrow> \<not> convertible x)"
proof
  assume u: "unmatched content"
  show "\<forall>pre x post. content = pre @ x @ post \<longrightarrow> \<not> convertible x"
  proof (intro allI impI notI)
    fix pre x post assume c: "content = pre @ x @ post" and "convertible x"
    from convertible_rule_match [OF this(2), of post] obtain r where r: "r \<in> set rules"
      and m: "match_here (fst r) None (x @ post) None \<noteq> None" by auto
    have i: "length pre \<in> set [0 ..< Suc (length content)]" by (simp add: c)
    from u have "\<forall>r\<in>set rules. \<forall>i\<in>set [0 ..< Suc (length content)].
        match_here (fst r) None (drop i content) None = None"
      by (simp only: unmatched_def list_all_iff)
    from bspec [OF bspec [OF this r] i]
    have "match_here (fst r) None (drop (length pre) content) None = None" .
    with m show False by (simp add: c)
  qed
next
  assume n: "\<forall>pre x post. content = pre @ x @ post \<longrightarrow> \<not> convertible x"
  show "unmatched content"
    unfolding unmatched_def list_all_iff
  proof (intro ballI)
    fix r i assume r: "r \<in> set rules"
    show "match_here (fst r) None (drop i content) None = None"
    proof (rule ccontr)
      assume "match_here (fst r) None (drop i content) None \<noteq> None"
      from rule_match_convertible [OF r this] obtain x rest
        where d: "drop i content = x @ rest" and x: "convertible x" by auto
      have "content = take i content @ x @ rest" using d by (metis append_take_drop_id)
      with n x show False by blast
    qed
  qed
qed

lemma no_match_subn:
  assumes "\<forall>pre x post. content = pre @ x @ post \<longrightarrow> \<not> convertible x" and "r \<in> set rules"
  shows "subn (fst r) (snd r) content = (content, 0)"
  unfolding subn_def
proof (rule subn_from_no_match [OF rules_no_Bol [OF assms(2)]])
  fix pre t assume c: "content = pre @ t"
  show "match_here (fst r) None t None = None"
  proof (rule ccontr)
    assume "match_here (fst r) None t None \<noteq> None"
    from rule_match_convertible [OF assms(2) this] obtain x rest
      where "t = x @ rest" and x: "convertible x" by auto
    with c have "content = pre @ x @ rest" by simp
    with assms(1) x show False by blast
  qed
qed

lemma fold_rules_id:
  "(\<And>r. r \<in> set rs \<Longrightarrow> subn (fst r) (snd r) content = (content, 0)) \<Longrightarrow>
   foldl (\<lambda>st r. apply_rule r st) (content, n) rs = (content, n)"
  by (induction rs) (simp_all add: apply_rule_def)








lemma sorted_fst_last:
  "sorted (map fst xs) \<Longrightarrow> x \<in> set xs \<Longrightarrow> fst x \<le> fst (last xs)"
proof (induction xs rule: rev_induct)
  case Nil
  then show ?case by simp
next
  case (snoc y ys)
  then show ?case by (auto simp: sorted_append)
qed

section \<open>Lemmas on the rewrite of the error statement\<close>







lemma space_chars [simp]:
  \<open>\<not> is_space CHR ''c''\<close> \<open>\<not> is_space CHR ''l''\<close> \<open>\<not> is_space CHR ''e''\<close>
  \<open>\<not> is_space CHR ''X''\<close> \<open>\<not> is_space squote\<close> \<open>\<not> is_space dquote\<close>
  \<open>\<not> is_space CHR '',''\<close> \<open>\<not> is_space CHR '';''\<close> \<open>\<not> is_space CHR ''{''\<close>
  \<open>is_space CHR '' ''\<close>
  by (simp_all add: is_space_def)

lemma error_statement_shape: "error_with_identifier error_statement"
  unfolding error_with_identifier_def
  by (rule exI [of _ "''X''"], rule exI [of _ "'' ''"])
     (simp add: message_def obj_call_def error_statement_def)


lemma error_obj_sq_rule: "error_obj_sq = obj_rule squote"
  by (simp add: error_obj_sq_def obj_rule_def)








































lemma logger_not_suffix [simp]:
  \<open>\<not> suffix ''logger.error('' ''console.error(''\<close>
  \<open>\<not> suffix ''logger.info('' ''console.error(''\<close>
  \<open>\<not> suffix ''logger.warn('' ''console.error(''\<close>
  by (simp_all add: suffix_to_prefix)















section \<open>Lemmas on the run\<close>

lemma process_file_total:
  assumes "process_file e n i filepath st = Inr st'"
  shows "rewrite_file e (world st) filepath = Some (world st')
       \<and> total_replacements st' = total_replacements st
            + (count_console_statements (run_grep e (world st)) filepath
                 - count_console_statements (run_grep e (world st')) filepath)
       \<and> files_with_logger_added st \<le> files_with_logger_added st'"
  using assms
  by (auto simp: process_file_def rewrite_file_def rewrite_text_def Let_def
      split: option.splits prod.splits if_splits)

lemma process_files_total:
  "process_files e n i files st = Inr st' \<Longrightarrow>
   total_replacements st' = total_replacements st + sum_list (count_deltas e (world st) files)"
proof (induction files arbitrary: st i)
  case Nil
  then show ?case by simp
next
  case (Cons filepath files)
  from Cons.prems obtain st1 where 1: "process_file e n i filepath st = Inr st1"
    and 2: "process_files e n (Suc i) files st1 = Inr st'"
    by (auto split: sum.splits)
  from process_file_total [OF 1] Cons.IH [OF 2] show ?case by simp
qed

lemma main_Complete:
  assumes "main e w = Inr (out, w')" and "find_files_with_console e w = Inr files" and "files \<noteq> []"
  shows "\<exists>added. Complete (length files) added (sum_list (count_deltas e w files)) \<in> set out"
proof -
  from assms obtain st where st: "process_files e (length files) 1 files
      \<lparr>world = w, total_replacements = 0, files_with_logger_added = 0,
       printed = [Finding, Found (length files)]\<rparr> = Inr st"
    and out: "Complete (length files) (files_with_logger_added st) (total_replacements st) \<in> set out"
    by (auto simp: main_def Let_def split: sum.splits if_splits)
  from process_files_total [OF st] out show ?thesis by auto
qed

lemma two_file_run_value:
  \<open>main posix two_file_tree =
     Inr ([Finding, Found 2,
           Processing 1 2 ''src/a.js'', AddedImport, Replaced 1 0,
           Processing 2 2 ''src/deep/b.js'', Replaced 1 0,
           Complete 2 1 2, AllReplaced],
          [(''src/a.js'',
            ''const x = require('y');\<newline>const logger = require('utils/logger');\<newline>logger.warn('careful');\<newline>''),
           (''src/deep/b.js'', ''logger.info('ok');\<newline>'')])\<close>
  by code_simp

section \<open>The claims\<close>

text \<open>
  Claim C1: the rewrite of one file (import insertion, then replacement of the console
  calls) run twice gives the text of one run. The code does not do this. For the file
  \<^verbatim>\<open>src/api/a.js\<close> the inserted import names \<^verbatim>\<open>'../utils/logger'\<close>, while the guard of
  \<^verbatim>\<open>add_logger_import\<close> looks for \<^verbatim>\<open>'../../utils/logger'\<close> only: the second run does not
  see the import of the first and inserts a second line.
\<close>

theorem rewrite_twice_inserts_twice:
  \<open>rewrite_text twice_input ''src/api/a.js'' =
     ''const x = require('y');\<newline>const logger = require('../utils/logger');\<newline>console.log(x);\<newline>''
   \<and> rewrite_text (rewrite_text twice_input ''src/api/a.js'') ''src/api/a.js'' =
     ''const x = require('y');\<newline>const logger = require('../utils/logger');\<newline>const logger = require('../utils/logger');\<newline>console.log(x);\<newline>''\<close>
  by code_simp

text \<open>
  Claim C2 says that file A of the two-file tree receives an import of
  \<^verbatim>\<open>'../utils/logger'\<close>. The path \<^verbatim>\<open>src/a.js\<close> has one separator, so the depth is 0 and
  the import names \<^verbatim>\<open>'utils/logger'\<close>: after the run the text of file A does not contain
  \<^verbatim>\<open>require('../utils/logger')\<close>.
\<close>

theorem two_file_import_counterexample:
  \<open>\<not> (\<exists>out fs text. main posix two_file_tree = Inr (out, fs)
         \<and> map_of fs ''src/a.js'' = Some text
         \<and> contains ''require('../utils/logger')'' text)\<close>
proof
  assume \<open>\<exists>out fs text. main posix two_file_tree = Inr (out, fs)
         \<and> map_of fs ''src/a.js'' = Some text
         \<and> contains ''require('../utils/logger')'' text\<close>
  then obtain out fs body where m: "main posix two_file_tree = Inr (out, fs)"
    and t: \<open>map_of fs ''src/a.js'' = Some body\<close>
    and c: \<open>contains ''require('../utils/logger')'' body\<close> by blast
  from m have fs: \<open>fs = [(''src/a.js'',
            ''const x = require('y');\<newline>const logger = require('utils/logger');\<newline>logger.warn('careful');\<newline>''),
           (''src/deep/b.js'', ''logger.info('ok');\<newline>'')]\<close>
    unfolding two_file_run_value by simp
  from t have \<open>body = ''const x = require('y');\<newline>const logger = require('utils/logger');\<newline>logger.warn('careful');\<newline>''\<close>
    unfolding fs by simp
  with c show False by simp
qed

text \<open>
  Claim C2, amended: for the two-file tree (\<^verbatim>\<open>src/a.js\<close> with one require line and
  \<^verbatim>\<open>console.warn('careful');\<close>, \<^verbatim>\<open>src/deep/b.js\<close> with no require line and
  \<^verbatim>\<open>console.log('ok');\<close>) a full run reports 2 files processed, 1 logger import added,
  2 replacements and nothing remaining; file A receives an import of \<^verbatim>\<open>'utils/logger'\<close>,
  file B receives no import and ends up containing \<^verbatim>\<open>logger.info('ok');\<close>.
\<close>

theorem two_file_run:
  \<open>main posix two_file_tree =
     Inr ([Finding, Found 2,
           Processing 1 2 ''src/a.js'', AddedImport, Replaced 1 0,
           Processing 2 2 ''src/deep/b.js'', Replaced 1 0,
           Complete 2 1 2, AllReplaced],
          [(''src/a.js'',
            ''const x = require('y');\<newline>const logger = require('utils/logger');\<newline>logger.warn('careful');\<newline>''),
           (''src/deep/b.js'', ''logger.info('ok');\<newline>'')])\<close>
  by (rule two_file_run_value)








text \<open>
  Claim C6: when the call of \<^verbatim>\<open>grep\<close> for a file raises or returns a status other than 0,
  \<^verbatim>\<open>count_console_statements\<close> returns 0, and the locator, whenever \<^verbatim>\<open>find\<close> itself
  succeeded, returns a list without an error and without that file.
\<close>

theorem count_failure_swallowed:
  assumes "run_grep e w filepath = Raised
         \<or> (\<exists>returncode out. run_grep e w filepath = Completed returncode out \<and> returncode \<noteq> 0)"
  shows "count_console_statements (run_grep e w) filepath = 0
       \<and> (\<forall>out. run_find e w = Completed 0 out \<longrightarrow>
            (\<exists>files. find_files_with_console e w = Inr files \<and> filepath \<notin> set files))"
proof -
  from assms have c: "count_console_statements (run_grep e w) filepath = 0"
    by (auto simp: count_console_statements_def)
  then show ?thesis by (simp add: find_files_with_console_def)
qed

text \<open>A file that \<^verbatim>\<open>find\<close> lists and \<^verbatim>\<open>grep\<close> cannot read.\<close>

theorem count_failure_swallowed_witness:
  \<open>run_grep (stub_env (Completed 0 ''src/gone.js\<newline>src/b.js\<newline>'')
       (\<lambda>filepath. if filepath = ''src/gone.js'' then Completed 2 [] else Completed 0 ''3\<newline>'')) ()
       ''src/gone.js'' = Completed 2 []
   \<and> count_console_statements (run_grep (stub_env (Completed 0 ''src/gone.js\<newline>src/b.js\<newline>'')
       (\<lambda>filepath. if filepath = ''src/gone.js'' then Completed 2 [] else Completed 0 ''3\<newline>'')) ())
       ''src/gone.js'' = 0
   \<and> find_files_with_console (stub_env (Completed 0 ''src/gone.js\<newline>src/b.js\<newline>'')
       (\<lambda>filepath. if filepath = ''src/gone.js'' then Completed 2 [] else Completed 0 ''3\<newline>'')) ()
       = Inr [''src/b.js'']\<close>
proof -
  let ?e = \<open>stub_env (Completed 0 ''src/gone.js\<newline>src/b.js\<newline>'')
       (\<lambda>filepath. if filepath = ''src/gone.js'' then Completed 2 [] else Completed 0 ''3\<newline>'')\<close>
  have 1: \<open>run_grep ?e () ''src/gone.js'' = Completed 2 []\<close> by (simp add: stub_env_def)
  then have h: \<open>run_grep ?e () ''src/gone.js'' = Raised
         \<or> (\<exists>returncode out. run_grep ?e () ''src/gone.js'' = Completed returncode out \<and> returncode \<noteq> 0)\<close>
    by simp
  have 3: \<open>find_files_with_console ?e () = Inr [''src/b.js'']\<close> by code_simp
  from count_failure_swallowed [OF h, THEN conjunct1] 1 3 show ?thesis by (intro conjI)
qed

text \<open>
  Claim C7: the total of replacements that a run reports is the sum, over the files it
  processed, of the count of \<^verbatim>\<open>grep\<close> before the file was processed minus that count
  after it was written. It is not the sum of the counts that the rewriter returns: for a file
  with two calls on one line the first sum is 1 and the second is 2.
\<close>

theorem total_is_count_delta:
  \<open>(main e w = Inr (out, w') \<and> find_files_with_console e w = Inr files \<and> files \<noteq> [] \<longrightarrow>
      (\<exists>added. Complete (length files) added (sum_list (count_deltas e w files)) \<in> set out))
   \<and> sum_list (count_deltas posix one_line_tree [''src/a.js'']) = 1
   \<and> sum_list (rule_hits posix one_line_tree [''src/a.js'']) = 2\<close>
proof (intro conjI impI)
  assume a: "main e w = Inr (out, w') \<and> find_files_with_console e w = Inr files \<and> files \<noteq> []"
  show "\<exists>added. Complete (length files) added (sum_list (count_deltas e w files)) \<in> set out"
    by (rule main_Complete [of e w out w' files]) (use a in simp_all)
next
  show \<open>sum_list (count_deltas posix one_line_tree [''src/a.js'']) = 1\<close> by code_simp
next
  show \<open>sum_list (rule_hits posix one_line_tree [''src/a.js'']) = 2\<close> by code_simp
qed

text \<open>The run over the file with two calls on one line.\<close>

theorem total_is_count_delta_witness:
  \<open>main posix one_line_tree =
     Inr ([Finding, Found 1, Processing 1 1 ''src/a.js'', Replaced 2 0, Complete 1 0 1, AllReplaced],
          [(''src/a.js'', ''logger.info('a'); logger.info('b');\<newline>'')])
   \<and> find_files_with_console posix one_line_tree = Inr [''src/a.js'']
   \<and> (\<exists>added. Complete 1 added (sum_list (count_deltas posix one_line_tree [''src/a.js''])) \<in>
         set [Finding, Found 1, Processing 1 1 ''src/a.js'', Replaced 2 0, Complete 1 0 1, AllReplaced])\<close>
proof -
  have m: \<open>main posix one_line_tree =
     Inr ([Finding, Found 1, Processing 1 1 ''src/a.js'', Replaced 2 0, Complete 1 0 1, AllReplaced],
          [(''src/a.js'', ''logger.info('a'); logger.info('b');\<newline>'')])\<close>
    by code_simp
  have f: \<open>find_files_with_console posix one_line_tree = Inr [''src/a.js'']\<close>
    by code_simp
  have ne: "[''src/a.js''] \<noteq> ([] :: string list)" by simp
  have "\<exists>added. Complete (length [''src/a.js'']) added
        (sum_list (count_deltas posix one_line_tree [''src/a.js''])) \<in>
         set [Finding, Found 1, Processing 1 1 ''src/a.js'', Replaced 2 0, Complete 1 0 1, AllReplaced]"
    by (rule total_is_count_delta [THEN conjunct1, rule_format, of posix one_line_tree _
          \<open>[(''src/a.js'', ''logger.info('a'); logger.info('b');\<newline>'')]\<close>])
       (intro conjI m f ne)
  then have "\<exists>added. Complete 1 added
        (sum_list (count_deltas posix one_line_tree [''src/a.js''])) \<in>
         set [Finding, Found 1, Processing 1 1 ''src/a.js'', Replaced 2 0, Complete 1 0 1, AllReplaced]"
    by (simp only: list.size One_nat_def add_0)
  with m f show ?thesis by (intro conjI)
qed

text \<open>
  Claim C8: a text in which no part has one of the eight shapes of call is returned
  unchanged by \<^verbatim>\<open>replace_console_statements\<close>, with the count 0. The witness is a text with
  a call with a second argument, a call with a computed string, a call over several lines and
  a call without a semicolon.
\<close>

theorem unmatched_text_unchanged:
  assumes "\<forall>pre x post. content = pre @ x @ post \<longrightarrow> \<not> convertible x"
  shows "replace_console_statements content = (content, 0)"
  unfolding replace_console_statements_fold
  by (rule fold_rules_id) (rule no_match_subn [OF assms])

theorem unmatched_text_unchanged_witness:
  "unmatched unmatched_example
   \<and> replace_console_statements unmatched_example = (unmatched_example, 0)"
proof -
  have u: "unmatched unmatched_example" by code_simp
  from unmatched_text_unchanged [OF u [unfolded unmatched_iff]] u show ?thesis by (intro conjI)
qed

text \<open>
  Claim C9: when \<^verbatim>\<open>add_logger_import\<close> reports that an import was added, the text it
  returns is the original text with the one line \<^verbatim>\<open>const logger = require('<path>');\<close>
  inserted at the end of the last line of the shape \<^verbatim>\<open>const <name> = require(<expr>);\<close>:
  the text before and the text after the insertion point are kept as they were.
\<close>

theorem import_inserted_after_last_require:
  assumes "add_logger_import content filepath = (content', True)"
  shows "\<exists>pre l post.
           content = pre @ l @ post \<and> is_line None pre l post \<and> require_line l
         \<and> (\<forall>pre' l' post'. content = pre' @ l' @ post' \<and> is_line None pre' l' post'
               \<and> require_line l' \<longrightarrow> length pre' \<le> length pre)
         \<and> content' = pre @ l @ import_line filepath @ post"
proof -
  let ?ms = "finditer require_pattern content"
  from assms have ne: "?ms \<noteq> []"
    and c': "content' = take (snd (last ?ms)) content @ import_line filepath
                          @ drop (snd (last ?ms)) content"
    by (auto simp: add_logger_import_def Let_def import_line_def split: if_splits)
  obtain a b where ab: "last ?ms = (a, b)" by (cases "last ?ms") auto
  with ne have mem: "(a, b) \<in> set (finditer_from require_pattern None 0 content)"
    unfolding finditer_def by (metis last_in_set)
  from finditer_require_sound [OF mem] obtain pre l post where c: "content = pre @ l @ post"
    and il: "is_line None pre l post" and rl: "require_line l"
    and a: "a = length pre" and b: "b = a + length l" by auto
  have later: "length pre' \<le> length pre"
    if "content = pre' @ l' @ post' \<and> is_line None pre' l' post' \<and> require_line l'"
    for pre' l' post'
  proof -
    from that finditer_require_complete [of None pre' l' post' 0]
    have "(length pre', length pre' + length l') \<in> set ?ms" by (simp add: finditer_def)
    from sorted_fst_last [OF _ this] finditer_require_sorted [of None 0 content]
    have "length pre' \<le> fst (last ?ms)" by (simp add: finditer_def)
    then show ?thesis by (simp add: ab a)
  qed
  have "take b content = pre @ l" "drop b content = post" by (simp_all add: c a b)
  with c' ab have "content' = pre @ l @ import_line filepath @ post" by simp
  with c il rl later show ?thesis by blast
qed

text \<open>A file with two import lines at depth 1.\<close>

theorem import_inserted_after_last_require_witness:
  \<open>add_logger_import ''const a = require('b');\<newline>const c = require("d");\<newline>console.log('x');\<newline>''
       ''src/api/a.js''
     = (''const a = require('b');\<newline>const c = require("d");\<newline>const logger = require('../utils/logger');\<newline>console.log('x');\<newline>'', True)
   \<and> (\<exists>pre l post.
         ''const a = require('b');\<newline>const c = require("d");\<newline>console.log('x');\<newline>'' = pre @ l @ post
       \<and> is_line None pre l post \<and> require_line l
       \<and> ''const a = require('b');\<newline>const c = require("d");\<newline>const logger = require('../utils/logger');\<newline>console.log('x');\<newline>''
            = pre @ l @ import_line ''src/api/a.js'' @ post)\<close>
proof -
  have e: \<open>add_logger_import ''const a = require('b');\<newline>const c = require("d");\<newline>console.log('x');\<newline>''
       ''src/api/a.js''
     = (''const a = require('b');\<newline>const c = require("d");\<newline>const logger = require('../utils/logger');\<newline>console.log('x');\<newline>'', True)\<close>
    by code_simp
  from import_inserted_after_last_require [OF e] obtain pre l post where
    \<open>''const a = require('b');\<newline>const c = require("d");\<newline>console.log('x');\<newline>'' = pre @ l @ post\<close>
    \<open>is_line None pre l post\<close> \<open>require_line l\<close>
    \<open>''const a = require('b');\<newline>const c = require("d");\<newline>const logger = require('../utils/logger');\<newline>console.log('x');\<newline>''
            = pre @ l @ import_line ''src/api/a.js'' @ post\<close>
    by (elim exE conjE)
  then have \<open>\<exists>pre l post.
         ''const a = require('b');\<newline>const c = require("d");\<newline>console.log('x');\<newline>'' = pre @ l @ post
       \<and> is_line None pre l post \<and> require_line l
       \<and> ''const a = require('b');\<newline>const c = require("d");\<newline>const logger = require('../utils/logger');\<newline>console.log('x');\<newline>''
            = pre @ l @ import_line ''src/api/a.js'' @ post\<close>
    by (intro exI conjI)
  with e show ?thesis by (intro conjI)
qed

text \<open>
  Claim C10: when \<^verbatim>\<open>find\<close> prints nothing (or white space only),
  \<^verbatim>\<open>find_files_with_console\<close> returns the empty list, whatever \<^verbatim>\<open>grep\<close> would answer for
  the empty path.
\<close>

theorem find_files_empty_output:
  assumes "run_find e w = Completed 0 out" and "strip out = []"
  shows "find_files_with_console e w = Inr []"
  using assms by (simp add: find_files_with_console_def)

text \<open>An environment in which \<^verbatim>\<open>grep\<close> would count 5 for every path.\<close>

theorem find_files_empty_output_witness:
  \<open>run_find (stub_env (Completed 0 []) (\<lambda>filepath. Completed 0 ''5'')) () = Completed 0 []
   \<and> strip [] = []
   \<and> count_console_statements (run_grep (stub_env (Completed 0 []) (\<lambda>filepath. Completed 0 ''5'')) ()) [] = 5
   \<and> find_files_with_console (stub_env (Completed 0 []) (\<lambda>filepath. Completed 0 ''5'')) () = Inr []\<close>
proof -
  let ?e = \<open>stub_env (Completed 0 []) (\<lambda>filepath. Completed 0 ''5'')\<close>
  have 1: "run_find ?e () = Completed 0 []" by (simp add: stub_env_def)
  have 2: "strip [] = []" by (simp add: strip_def)
  have 3: "count_console_statements (run_grep ?e ()) [] = 5" by code_simp
  from find_files_empty_output [OF 1 2] 1 2 3 show ?thesis by (intro conjI)
qed

end
